theory Spec2Isabelle
  imports Complex_Main "HOL-Library.Word" "HOL-Library.Monad_Syntax"
begin

unbundle bit_operations_syntax

section \<open>The dice generators of GNU Backgammon (dice.c)\<close>

text \<open>
  A shallow embedding of \<^verbatim>\<open>dice.c\<close>, built with \<^verbatim>\<open>HAVE_LIBGMP\<close> and
  \<^verbatim>\<open>LIBCURL_PROTOCOL_HTTPS\<close> defined. Every C function keeps its name. A function
  that changes \<^verbatim>\<open>*rngctx\<close> returns the new context. A result of type \<open>option\<close> is
  \<open>None\<close> when the C call does not return: a loop that runs forever, a failed
  \<^verbatim>\<open>g_assert\<close>, or GMP's abort on a zero modulus.
\<close>

subsection \<open>Data\<close>

type_synonym u32 = "32 word"
type_synonym ulong = "64 word"
type_synonym mpz = int

text \<open>The enumeration \<^verbatim>\<open>rng\<close>, in the order of \<^verbatim>\<open>aszRNG\<close>.\<close>

datatype rng =
  RNG_BBS | RNG_ISAAC | RNG_MD5 | RNG_MERSENNE | RNG_MANUAL | RNG_RANDOM_DOT_ORG | RNG_FILE

text \<open>
  What the functions print (\<^verbatim>\<open>g_print\<close>, \<^verbatim>\<open>g_printerr\<close>, \<^verbatim>\<open>outputerrf\<close>), one
  constructor per format string, with the arguments of the format.
\<close>

datatype message =
  InvalidBlumFactor string mpz
    \<comment> \<open>"%s is an invalid Blum factor, using %s instead."\<close>
| InvalidSeedOrModulus
    \<comment> \<open>"Invalid seed and/or modulus for the Blum, Blum and Shub generator."\<close>
| PleaseResetSeed
    \<comment> \<open>"Please reset the seed and/or modulus before continuing."\<close>
| RewindingDiceFile string
    \<comment> \<open>"Rewinding dice file (%s)"\<close>
| DiceFileError string
    \<comment> \<open>\<^verbatim>\<open>g_printerr("%s", szDiceFilename)\<close>\<close>
| GeneratorNotWorking
    \<comment> \<open>"Your dice generator isn't working. Failing back on RNG_MERSENNE"\<close>

text \<open>
  A \<^verbatim>\<open>FILE *\<close> opened for reading, as far as \<^verbatim>\<open>fread\<close>, \<^verbatim>\<open>feof\<close> and
  \<^verbatim>\<open>fseek\<close> see it: the bytes of the file, the read position, the end-of-file
  indicator, and whether the device fails every read with an error.
\<close>

record dicefile =
  f_bytes :: "8 word list"
  f_pos :: nat
  f_eof :: bool
  f_err :: bool

text \<open>
  \<^verbatim>\<open>struct rngcontext\<close>. The states of ISAAC (\<^verbatim>\<open>randctx\<close>) and of the Mersenne
  Twister (\<^verbatim>\<open>sfmt_t\<close>) are type parameters: their code is not part of dice.c. The
  fields \<^verbatim>\<open>c\<close>, \<^verbatim>\<open>nz\<close> and \<^verbatim>\<open>n\<close> are \<open>counter_c\<close>, \<open>seed_nz\<close> and \<open>seed_n\<close>.
\<close>

record ('i, 'm) rngcontext =
  fDice :: "dicefile option"
  szDiceFilename :: string
  rc :: 'i
  nMD5 :: u32
  sfmt :: 'm
  zModulus :: mpz
  zSeed :: mpz
  zZero :: mpz
  zOne :: mpz
  fZInit :: bool
  counter_c :: ulong
  seed_nz :: mpz
  seed_n :: u32

text \<open>
  The context together with what lies outside it: the messages printed so far (newest
  last) and the state of the outside world that manual entry and random.org read.
\<close>

record ('i, 'm, 'w) machine = "('i, 'm) rngcontext" +
  out :: "message list"
  world :: 'w

text \<open>
  The functions dice.c calls and does not define: ISAAC, SFMT, MD5, the manual dice
  dialog, random.org, GMP's decimal parser and primality test, and what
  \<^verbatim>\<open>SetRNG\<close> does to the context when it selects a generator. \<open>mpz_set_str\<close> is
  \<open>None\<close> where GMP returns -1, the target keeping its value. \<open>irandinit\<close> takes the contents of \<^verbatim>\<open>randrsl\<close>
  (flag \<^verbatim>\<open>TRUE\<close>); \<open>md5_buffer n\<close> is the pair \<^verbatim>\<open>h.an[0]\<close>, \<^verbatim>\<open>h.an[1]\<close> of the
  digest of the four bytes of \<open>n\<close>.
\<close>

record ('i, 'm, 'w) externals =
  irand :: "'i \<Rightarrow> u32 \<times> 'i"
  irandinit :: "u32 list \<Rightarrow> 'i"
  RANDSIZ :: nat
  sfmt_genrand_uint32 :: "'m \<Rightarrow> u32 \<times> 'm"
  sfmt_init_gen_rand :: "u32 \<Rightarrow> 'm"
  md5_buffer :: "u32 \<Rightarrow> u32 \<times> u32"
  GetManualDice :: "'w \<Rightarrow> (int \<times> u32 \<times> u32) \<times> 'w"
  getDiceRandomDotOrg :: "'w \<Rightarrow> u32 \<times> 'w"
  mpz_set_str :: "string \<Rightarrow> mpz option"
  mpz_probab_prime_p :: "mpz \<Rightarrow> int \<Rightarrow> int"
  reselect :: "rng \<Rightarrow> rng \<Rightarrow> ('i, 'm, 'w) machine \<Rightarrow> ('i, 'm, 'w) machine"

definition g_print :: "message \<Rightarrow> ('i, 'm, 'w) machine \<Rightarrow> ('i, 'm, 'w) machine" where
  "g_print msg ctx = ctx\<lparr>out := out ctx @ [msg]\<rparr>"

subsection \<open>GMP integers\<close>

text \<open>
  \<^verbatim>\<open>mpz_get_ui\<close> is the least significant limb of the absolute value;
  \<^verbatim>\<open>mpz_powm_ui(z, z, 2, m)\<close> is the square modulo the absolute value of \<open>m\<close>, and
  GMP aborts when \<open>m\<close> is 0 (the callers test that before they call it).
\<close>

definition mpz_get_ui :: "mpz \<Rightarrow> ulong" where
  "mpz_get_ui x = word_of_int \<bar>x\<bar>"

definition mpz_powm_ui2 :: "mpz \<Rightarrow> mpz \<Rightarrow> mpz" where
  "mpz_powm_ui2 z m = (z * z) mod \<bar>m\<bar>"

subsection \<open>Blum, Blum and Shub\<close>

definition InitRNGBBS :: "('i, 'm, 'w) machine \<Rightarrow> ('i, 'm, 'w) machine" where
  "InitRNGBBS ctx =
     (if \<not> fZInit ctx
      then ctx\<lparr>zModulus := 0, zSeed := 0, zZero := 0, zOne := 1, fZInit := True\<rparr>
      else ctx)"

definition InitRNGBBSModulus ::
  "('i, 'm, 'w) externals \<Rightarrow> string option \<Rightarrow> ('i, 'm, 'w) machine
     \<Rightarrow> int \<times> ('i, 'm, 'w) machine" where
  "InitRNGBBSModulus ext sz ctx =
     (case sz of
        None \<Rightarrow> (-1, ctx)
      | Some s \<Rightarrow>
          (let ctx1 = InitRNGBBS ctx in
           case mpz_set_str ext s of
             None \<Rightarrow> (-1, ctx1)
           | Some m \<Rightarrow> if sgn m < 1 then (-1, ctx1\<lparr>zModulus := m\<rparr>)
                       else (0, ctx1\<lparr>zModulus := m\<rparr>)))"

definition BBSGood :: "('i, 'm, 'w) externals \<Rightarrow> mpz \<Rightarrow> bool" where
  "BBSGood ext x \<longleftrightarrow>
     (mpz_get_ui x AND 3) = 3 \<and> x \<ge> 19 \<and> mpz_probab_prime_p ext x 10 \<noteq> 0"

partial_function (option) BBSFindGood :: "('i, 'm, 'w) externals \<Rightarrow> mpz \<Rightarrow> mpz option" where
  "BBSFindGood ext x =
     (let x' = x + 1 in if \<not> BBSGood ext x' then BBSFindGood ext x' else Some x')"

declare BBSFindGood.simps [code]

definition InitRNGBBSFactors ::
  "('i, 'm, 'w) externals \<Rightarrow> string option \<Rightarrow> string option \<Rightarrow> ('i, 'm, 'w) machine
     \<Rightarrow> (int \<times> ('i, 'm, 'w) machine) option" where
  "InitRNGBBSFactors ext sz0 sz1 ctx =
     (case (sz0, sz1) of
        (Some s0, Some s1) \<Rightarrow>
          (case mpz_set_str ext s0 of
             None \<Rightarrow> Some (-1, ctx)
           | Some p \<Rightarrow>
               if sgn p < 1 then Some (-1, ctx)
               else
                 (case mpz_set_str ext s1 of
                    None \<Rightarrow> Some (-1, ctx)
                  | Some q \<Rightarrow>
                      if sgn p < 1 then Some (-1, ctx)
                      else do {
                        (p', ctx1) \<leftarrow>
                          (if \<not> BBSGood ext p
                           then do {
                             p' \<leftarrow> BBSFindGood ext p;
                             Some (p', g_print (InvalidBlumFactor s0 p') ctx)
                           }
                           else Some (p, ctx));
                        (q', ctx2) \<leftarrow>
                          (if \<not> BBSGood ext q \<or> p' = q
                           then do {
                             q1 \<leftarrow> BBSFindGood ext q;
                             q2 \<leftarrow> (if p' = q1 then BBSFindGood ext q1 else Some q1);
                             Some (q2, g_print (InvalidBlumFactor s1 q2) ctx1)
                           }
                           else Some (q, ctx1));
                        Some (0, (InitRNGBBS ctx2)\<lparr>zModulus := p' * q'\<rparr>)
                      }))
      | _ \<Rightarrow> Some (-1, ctx))"

definition BBSGetBit :: "('i, 'm, 'w) machine \<Rightarrow> (u32 \<times> ('i, 'm, 'w) machine) option" where
  "BBSGetBit ctx =
     (if zModulus ctx = 0 then None
      else
        (let z = mpz_powm_ui2 (zSeed ctx) (zModulus ctx)
         in Some (ucast (mpz_get_ui z AND 1), ctx\<lparr>zSeed := z\<rparr>)))"

text \<open>
  The loop of \<^verbatim>\<open>BBSGetTrit\<close>, from a given value of \<^verbatim>\<open>state\<close>. The source of the
  bits is a parameter: \<^verbatim>\<open>BBSGetTrit\<close> runs it on \<open>BBSGetBit\<close>. A state outside 0..4
  matches no case of the switch, and the loop goes round without drawing a bit.
\<close>

partial_function (option) BBSGetTrit_loop ::
  "('s \<Rightarrow> (u32 \<times> 's) option) \<Rightarrow> u32 \<Rightarrow> 's \<Rightarrow> (u32 \<times> 's) option" where
  "BBSGetTrit_loop getbit state src =
     (if state = 0 then
        (case getbit src of None \<Rightarrow> None
         | Some (b, src') \<Rightarrow> BBSGetTrit_loop getbit (b + 1) src')
      else if state = 1 then
        (case getbit src of None \<Rightarrow> None
         | Some (b, src') \<Rightarrow> if b \<noteq> 0 then BBSGetTrit_loop getbit 3 src' else Some (0, src'))
      else if state = 2 then
        (case getbit src of None \<Rightarrow> None
         | Some (b, src') \<Rightarrow> if b \<noteq> 0 then Some (2, src') else BBSGetTrit_loop getbit 4 src')
      else if state = 3 then
        (case getbit src of None \<Rightarrow> None
         | Some (b, src') \<Rightarrow> if b \<noteq> 0 then Some (1, src') else BBSGetTrit_loop getbit 1 src')
      else if state = 4 then
        (case getbit src of None \<Rightarrow> None
         | Some (b, src') \<Rightarrow> if b \<noteq> 0 then BBSGetTrit_loop getbit 2 src' else Some (1, src'))
      else BBSGetTrit_loop getbit state src)"

declare BBSGetTrit_loop.simps [code]

definition BBSGetTrit :: "('i, 'm, 'w) machine \<Rightarrow> (u32 \<times> ('i, 'm, 'w) machine) option" where
  "BBSGetTrit ctx = BBSGetTrit_loop BBSGetBit 0 ctx"

text \<open>
  One die of the BBS generator, \<^verbatim>\<open>BBSGetTrit(rngctx) + BBSGetBit(rngctx) * 3 + 1\<close>,
  with the operands evaluated from left to right (C leaves the order open).
\<close>

definition BBSDie :: "('s \<Rightarrow> (u32 \<times> 's) option) \<Rightarrow> 's \<Rightarrow> (u32 \<times> 's) option" where
  "BBSDie getbit src = do {
     (trit, src1) \<leftarrow> BBSGetTrit_loop getbit 0 src;
     (bit, src2) \<leftarrow> getbit src1;
     Some (trit + bit * 3 + 1, src2)
   }"

definition BBSCheck :: "('i, 'm, 'w) machine \<Rightarrow> int" where
  "BBSCheck ctx = (if zSeed ctx \<noteq> zZero ctx \<and> zSeed ctx \<noteq> zOne ctx then 0 else -1)"

definition BBSInitialSeedFailure ::
  "('i, 'm, 'w) machine \<Rightarrow> int \<times> ('i, 'm, 'w) machine" where
  "BBSInitialSeedFailure ctx =
     (let ctx1 = g_print InvalidSeedOrModulus ctx;
          ctx2 = g_print PleaseResetSeed ctx1
      in (-1, ctx2\<lparr>zSeed := zZero ctx2\<rparr>))"

text \<open>The three \<^verbatim>\<open>for\<close> loops of \<^verbatim>\<open>BBSCheckInitialSeed\<close>, each from a value of its counter.\<close>

function square8 :: "nat \<Rightarrow> mpz \<Rightarrow> mpz \<Rightarrow> mpz" where
  "square8 i z m = (if i < 8 then square8 (i + 1) (mpz_powm_ui2 z m) m else z)"
  by pat_completeness auto
termination
  by (relation "measure (\<lambda>(i, z, m). 8 - i)") auto

function cycle16 :: "nat \<Rightarrow> mpz \<Rightarrow> mpz \<Rightarrow> mpz \<Rightarrow> nat" where
  "cycle16 i z zCycle m =
     (if i < 16
      then (let z' = mpz_powm_ui2 z m in if z' = zCycle then i else cycle16 (i + 1) z' zCycle m)
      else i)"
  by pat_completeness auto
termination
  by (relation "measure (\<lambda>(i, z, zCycle, m). 16 - i)") auto

function attempts :: "nat \<Rightarrow> ('i, 'm, 'w) machine \<Rightarrow> nat \<times> ('i, 'm, 'w) machine" where
  "attempts iAttempt ctx =
     (if iAttempt < 32
      then
        (let z = square8 0 (zSeed ctx) (zModulus ctx);
             zCycle = z;
             i = cycle16 0 z zCycle (zModulus ctx)
         in if i = 16 then (iAttempt, ctx)
            else attempts (iAttempt + 1) (ctx\<lparr>zSeed := zSeed ctx + 1\<rparr>))
      else (iAttempt, ctx))"
  by pat_completeness auto
termination
  by (relation "measure (\<lambda>(iAttempt, ctx). 32 - iAttempt)") auto

declare square8.simps [simp del] cycle16.simps [simp del] attempts.simps [simp del]

definition BBSCheckInitialSeed ::
  "('i, 'm, 'w) machine \<Rightarrow> (int \<times> ('i, 'm, 'w) machine) option" where
  "BBSCheckInitialSeed ctx =
     (if sgn (zSeed ctx) < 1 then Some (BBSInitialSeedFailure ctx)
      else if zModulus ctx = 0 then None
      else
        (case attempts 0 ctx of
           (iAttempt, ctx1) \<Rightarrow>
             (let ctx2 = (if iAttempt = 32 then snd (BBSInitialSeedFailure ctx1) else ctx1)
              in Some (if iAttempt < 32 then 0 else -1, ctx2))))"

subsection \<open>Seeding\<close>

text \<open>
  \<^verbatim>\<open>InitRNGSeed\<close> returns nothing; the result is \<open>None\<close> when \<^verbatim>\<open>g_assert\<close> fails or
  GMP aborts inside \<^verbatim>\<open>BBSCheckInitialSeed\<close>, whose return value the caller drops.
\<close>

definition InitRNGSeed ::
  "('i, 'm, 'w) externals \<Rightarrow> u32 \<Rightarrow> rng \<Rightarrow> ('i, 'm, 'w) machine
     \<Rightarrow> ('i, 'm, 'w) machine option" where
  "InitRNGSeed ext n rngx ctx =
     (let ctx1 = ctx\<lparr>seed_n := n, counter_c := 0\<rparr> in
      case rngx of
        RNG_BBS \<Rightarrow>
          if \<not> fZInit ctx1 then None
          else map_option snd (BBSCheckInitialSeed (ctx1\<lparr>zSeed := uint n\<rparr>))
      | RNG_ISAAC \<Rightarrow> Some (ctx1\<lparr>rc := irandinit ext (replicate (RANDSIZ ext) n)\<rparr>)
      | RNG_MD5 \<Rightarrow> Some (ctx1\<lparr>nMD5 := n\<rparr>)
      | RNG_MERSENNE \<Rightarrow> Some (ctx1\<lparr>sfmt := sfmt_init_gen_rand ext n\<rparr>)
      | RNG_MANUAL \<Rightarrow> Some ctx1
      | RNG_RANDOM_DOT_ORG \<Rightarrow> Some ctx1
      | RNG_FILE \<Rightarrow> Some ctx1)"

subsection \<open>Reading dice from a file\<close>

text \<open>
  \<^verbatim>\<open>fread(&uch, 1, 1, f)\<close>: the byte read when it returns 1, \<open>None\<close> when it
  returns 0; at the end of the file it sets the end-of-file indicator.
  \<^verbatim>\<open>fseek(f, 0, SEEK_SET)\<close> clears the indicator.
\<close>

definition fread1 :: "dicefile \<Rightarrow> 8 word option \<times> dicefile" where
  "fread1 f =
     (if f_err f then (None, f)
      else if f_pos f < length (f_bytes f)
      then (Some (f_bytes f ! f_pos f), f\<lparr>f_pos := f_pos f + 1\<rparr>)
      else (None, f\<lparr>f_eof := True\<rparr>))"

definition feof :: "dicefile \<Rightarrow> bool" where
  "feof f = f_eof f"

definition fseek0 :: "dicefile \<Rightarrow> dicefile" where
  "fseek0 f = f\<lparr>f_pos := 0, f_eof := False\<rparr>"

text \<open>The block at the label \<^verbatim>\<open>uglyloop\<close>, entered with an open file \<open>f\<close>.\<close>

partial_function (option) uglyloop ::
  "dicefile \<Rightarrow> ('i, 'm, 'w) machine \<Rightarrow> (u32 \<times> ('i, 'm, 'w) machine) option" where
  "uglyloop f ctx =
     (case fread1 f of
        (r, f1) \<Rightarrow>
          if feof f1 then
            uglyloop (fseek0 f1)
              ((g_print (RewindingDiceFile (szDiceFilename ctx)) ctx)\<lparr>fDice := Some (fseek0 f1)\<rparr>)
          else
            (case r of
               None \<Rightarrow>
                 Some (- 1, (g_print (DiceFileError (szDiceFilename ctx)) ctx)\<lparr>fDice := Some f1\<rparr>)
             | Some uch \<Rightarrow>
                 if uch \<ge> 0x31 \<and> uch \<le> 0x36 then Some (ucast uch - 0x30, ctx\<lparr>fDice := Some f1\<rparr>)
                 else uglyloop f1 (ctx\<lparr>fDice := Some f1\<rparr>)))"

declare uglyloop.simps [code]

definition ReadDiceFile :: "('i, 'm, 'w) machine \<Rightarrow> (u32 \<times> ('i, 'm, 'w) machine) option" where
  "ReadDiceFile ctx =
     (case fDice ctx of
        None \<Rightarrow> Some (- 1, ctx)
      | Some f \<Rightarrow> uglyloop f ctx)"

subsection \<open>Rolling\<close>

definition exp232_q :: ulong where
  "exp232_q = 715827882"

definition exp232_l :: ulong where
  "exp232_l = 4294967292"

text \<open>
  \<^verbatim>\<open>while ((tmprnd = gen(...)) >= exp232_l);\<close> for a generator \<open>gen\<close> of 32-bit
  values with state \<open>g\<close>: the accepted value of \<^verbatim>\<open>tmprnd\<close> and the state after it.
\<close>

partial_function (option) try_again :: "('g \<Rightarrow> u32 \<times> 'g) \<Rightarrow> 'g \<Rightarrow> (ulong \<times> 'g) option" where
  "try_again gen g =
     (case gen g of
        (r, g') \<Rightarrow>
          (let tmprnd = (ucast r :: ulong)
           in if tmprnd \<ge> exp232_l then try_again gen g' else Some (tmprnd, g')))"

declare try_again.simps [code]

text \<open>The \<^verbatim>\<open>while\<close> loop of the MD5 case, from the digest \<open>h\<close> and the seed \<open>nmd5\<close>.\<close>

partial_function (option) md5_while ::
  "(u32 \<Rightarrow> u32 \<times> u32) \<Rightarrow> u32 \<times> u32 \<Rightarrow> u32 \<Rightarrow> ((u32 \<times> u32) \<times> u32) option" where
  "md5_while md5 h nmd5 =
     (if (ucast (fst h) :: ulong) \<ge> exp232_l \<or> (ucast (snd h) :: ulong) \<ge> exp232_l
      then md5_while md5 (md5 nmd5) (nmd5 + 1)
      else Some (h, nmd5))"

declare md5_while.simps [code]

text \<open>
  How the \<^verbatim>\<open>switch\<close> of \<^verbatim>\<open>RollDice\<close> is left: by \<^verbatim>\<open>break\<close>, or by the
  \<^verbatim>\<open>return\<close> of the manual case. Both carry \<^verbatim>\<open>anDice\<close> and the context.
\<close>

datatype 'a flow = Break 'a | Return int 'a

definition RollDice_switch ::
  "('i, 'm, 'w) externals \<Rightarrow> rng \<Rightarrow> ('i, 'm, 'w) machine
     \<Rightarrow> ((u32 \<times> u32) \<times> ('i, 'm, 'w) machine) flow option" where
  "RollDice_switch ext prng ctx =
     (case prng of
        RNG_BBS \<Rightarrow>
          if BBSCheck ctx \<noteq> 0 then Some (Break ((0, 0), snd (BBSInitialSeedFailure ctx)))
          else do {
            (d0, ctx1) \<leftarrow> BBSDie BBSGetBit ctx;
            (d1, ctx2) \<leftarrow> BBSDie BBSGetBit ctx1;
            Some (Break ((d0, d1), ctx2\<lparr>counter_c := counter_c ctx2 + 2\<rparr>))
          }
      | RNG_ISAAC \<Rightarrow> do {
          (t0, g1) \<leftarrow> try_again (irand ext) (rc ctx);
          (t1, g2) \<leftarrow> try_again (irand ext) g1;
          Some (Break ((1 + ucast (t0 div exp232_q), 1 + ucast (t1 div exp232_q)),
                       ctx\<lparr>rc := g2, counter_c := counter_c ctx + 2\<rparr>))
        }
      | RNG_MANUAL \<Rightarrow>
          (case GetManualDice ext (world ctx) of
             ((r, d), w) \<Rightarrow> Some (Return r (d, ctx\<lparr>world := w\<rparr>)))
      | RNG_MD5 \<Rightarrow> do {
          (h, nmd5) \<leftarrow> md5_while (md5_buffer ext) (md5_buffer ext (nMD5 ctx)) (nMD5 ctx);
          Some (Break ((ucast ((ucast (fst h) :: ulong) div exp232_q + 1),
                        ucast ((ucast (snd h) :: ulong) div exp232_q + 1)),
                       ctx\<lparr>nMD5 := nmd5 + 1, counter_c := counter_c ctx + 2\<rparr>))
        }
      | RNG_MERSENNE \<Rightarrow> do {
          (t0, g1) \<leftarrow> try_again (sfmt_genrand_uint32 ext) (sfmt ctx);
          (t1, g2) \<leftarrow> try_again (sfmt_genrand_uint32 ext) g1;
          Some (Break ((1 + ucast (t0 div exp232_q), 1 + ucast (t1 div exp232_q)),
                       ctx\<lparr>sfmt := g2, counter_c := counter_c ctx + 2\<rparr>))
        }
      | RNG_RANDOM_DOT_ORG \<Rightarrow>
          (case getDiceRandomDotOrg ext (world ctx) of
             (d0, w1) \<Rightarrow>
               if d0 > 0 then
                 (case getDiceRandomDotOrg ext w1 of
                    (d1, w2) \<Rightarrow> Some (Break ((d0, d1), ctx\<lparr>world := w2\<rparr>)))
               else Some (Break ((d0, d0), ctx\<lparr>world := w1\<rparr>)))
      | RNG_FILE \<Rightarrow> do {
          (d0, ctx1) \<leftarrow> ReadDiceFile ctx;
          (d1, ctx2) \<leftarrow> ReadDiceFile ctx1;
          Some (Break ((d0, d1), ctx2\<lparr>counter_c := counter_c ctx2 + 2\<rparr>))
        })"

text \<open>
  Modelled from the spec: \<^verbatim>\<open>SetRNG\<close> is defined in another file of the repository.
  The spec (4.3) says that the dispatcher "switches the active kind to
  TwistedFeedback"; the kind stored in \<^verbatim>\<open>*prng\<close> becomes the new one. What the
  reselection does to the context (the spec's data model: it "reinitializes state") is
  the parameter \<open>reselect\<close>.
\<close>

definition SetRNG ::
  "('i, 'm, 'w) externals \<Rightarrow> rng \<Rightarrow> ('i, 'm, 'w) machine \<Rightarrow> rng
     \<Rightarrow> rng \<times> ('i, 'm, 'w) machine" where
  "SetRNG ext prng ctx rngNew = (rngNew, reselect ext prng rngNew ctx)"

text \<open>
  \<^verbatim>\<open>RollDice\<close>: the value returned, \<^verbatim>\<open>anDice\<close>, \<^verbatim>\<open>*prng\<close> and the context. The
  array is zeroed on entry, so its old contents are no argument.
\<close>

partial_function (option) RollDice ::
  "('i, 'm, 'w) externals \<Rightarrow> rng \<Rightarrow> ('i, 'm, 'w) machine
     \<Rightarrow> (int \<times> (u32 \<times> u32) \<times> rng \<times> ('i, 'm, 'w) machine) option" where
  "RollDice ext prng ctx =
     (case RollDice_switch ext prng ctx of
        None \<Rightarrow> None
      | Some (Return r (anDice, ctx1)) \<Rightarrow> Some (r, anDice, prng, ctx1)
      | Some (Break (anDice, ctx1)) \<Rightarrow>
          if fst anDice < 1 \<or> snd anDice < 1 \<or> fst anDice > 6 \<or> snd anDice > 6 then
            (case SetRNG ext prng (g_print GeneratorNotWorking ctx1) RNG_MERSENNE of
               (prng', ctx2) \<Rightarrow>
                 do {
                   (r, anDice', prng'', ctx3) \<leftarrow> RollDice ext prng' ctx2;
                   Some (0, anDice', prng'', ctx3)
                 })
          else Some (0, anDice, prng, ctx1))"

declare RollDice.simps [code]

section \<open>Notions of the specification\<close>

subsection \<open>Rejection sampling\<close>

text \<open>
  The draws of a generator from a state: \<open>nth_state gen g k\<close> is the state after \<open>k\<close>
  draws and \<open>nth_draw gen g k\<close> the value drawn there. Draw \<open>k\<close> is the first accepted
  one when it is below the limit \<open>6 * q\<close> and every earlier draw is not. An accepted raw
  value \<open>r\<close> gives the die \<open>1 + floor (r / q)\<close>, with \<open>q = 715827882\<close>.
\<close>

primrec nth_state :: "('g \<Rightarrow> u32 \<times> 'g) \<Rightarrow> 'g \<Rightarrow> nat \<Rightarrow> 'g" where
  "nth_state gen g 0 = g"
| "nth_state gen g (Suc k) = nth_state gen (snd (gen g)) k"

definition nth_draw :: "('g \<Rightarrow> u32 \<times> 'g) \<Rightarrow> 'g \<Rightarrow> nat \<Rightarrow> u32" where
  "nth_draw gen g k = fst (gen (nth_state gen g k))"

definition sample_q :: nat where
  "sample_q = 2 ^ 32 div 6"

definition sample_limit :: nat where
  "sample_limit = sample_q * 6"

definition first_accepted :: "('g \<Rightarrow> u32 \<times> 'g) \<Rightarrow> 'g \<Rightarrow> nat \<Rightarrow> bool" where
  "first_accepted gen g k \<longleftrightarrow>
     (\<forall>j \<in> {..<k}. unat (nth_draw gen g j) \<ge> sample_limit) \<and>
     unat (nth_draw gen g k) < sample_limit"

definition die_of_raw :: "u32 \<Rightarrow> nat" where
  "die_of_raw r = 1 + unat r div sample_q"

text \<open>
  Two dice: draw \<open>k0\<close> is the first accepted one from \<open>g\<close>, draw \<open>k1\<close> the first
  accepted one after it; the pair of dice they give and the state left behind.
\<close>

definition both_accepted :: "('g \<Rightarrow> u32 \<times> 'g) \<Rightarrow> 'g \<Rightarrow> nat \<Rightarrow> nat \<Rightarrow> bool" where
  "both_accepted gen g k0 k1 \<longleftrightarrow>
     first_accepted gen g k0 \<and> first_accepted gen (nth_state gen g (Suc k0)) k1"

definition sampled_pair ::
  "('g \<Rightarrow> u32 \<times> 'g) \<Rightarrow> 'g \<Rightarrow> nat \<Rightarrow> nat \<Rightarrow> (u32 \<times> u32) \<times> 'g" where
  "sampled_pair gen g k0 k1 =
     (let g1 = nth_state gen g (Suc k0)
      in ((of_nat (die_of_raw (nth_draw gen g k0)), of_nat (die_of_raw (nth_draw gen g1 k1))),
          nth_state gen g1 (Suc k1)))"

text \<open>The test of \<^verbatim>\<open>RollDice\<close> after its switch: a die below 1 or above 6.\<close>

definition out_of_range :: "u32 \<times> u32 \<Rightarrow> bool" where
  "out_of_range anDice \<longleftrightarrow>
     fst anDice < 1 \<or> snd anDice < 1 \<or> fst anDice > 6 \<or> snd anDice > 6"

subsection \<open>Scripted externals\<close>

text \<open>
  Stand-ins for the external functions, to run the model on concrete inputs: a
  generator that replays a list of draws and then yields zeros.
\<close>

definition list_gen :: "u32 list \<Rightarrow> u32 \<times> u32 list" where
  "list_gen xs = (case xs of [] \<Rightarrow> (0, []) | x # xs' \<Rightarrow> (x, xs'))"

text \<open>
  Primality by trial division, a parser of decimal numerals (an optional minus sign,
  then digits), and a set of externals built from them: ISAAC and SFMT replay their
  state, the manual dialog is interrupted (it returns -1 and leaves 0, 0), random.org
  fails, and \<open>reselect\<close> leaves the context alone. \<open>ctx0\<close> is the zeroed context
  \<^verbatim>\<open>InitRNG\<close> allocates.
\<close>

definition is_prime :: "int \<Rightarrow> bool" where
  "is_prime p \<longleftrightarrow> 2 \<le> p \<and> (\<forall>d \<in> set [2..p - 1]. \<not> d dvd p)"

primrec dec_digits :: "string \<Rightarrow> int \<Rightarrow> int option" where
  "dec_digits [] acc = Some acc"
| "dec_digits (ch # cs) acc =
     (if 48 \<le> (of_char ch :: nat) \<and> (of_char ch :: nat) \<le> 57
      then dec_digits cs (10 * acc + (of_char ch - 48))
      else None)"

definition dec_parse :: "string \<Rightarrow> int option" where
  "dec_parse s =
     (case s of
        [] \<Rightarrow> None
      | ch # cs \<Rightarrow>
          if ch = CHR ''-'' then (if cs = [] then None else map_option uminus (dec_digits cs 0))
          else dec_digits s 0)"

definition scripted :: "(u32 list, u32 list, unit) externals" where
  "scripted =
     \<lparr>irand = list_gen,
      irandinit = (\<lambda>rsl. rsl),
      RANDSIZ = 256,
      sfmt_genrand_uint32 = list_gen,
      sfmt_init_gen_rand = (\<lambda>n. [n]),
      md5_buffer = (\<lambda>n. (n, n)),
      GetManualDice = (\<lambda>w. ((- 1, 0, 0), w)),
      getDiceRandomDotOrg = (\<lambda>w. (0, w)),
      mpz_set_str = dec_parse,
      mpz_probab_prime_p = (\<lambda>x reps. if is_prime x then 2 else 0),
      reselect = (\<lambda>old new ctx. ctx)\<rparr>"

definition ctx0 :: "(u32 list, u32 list, unit) machine" where
  "ctx0 =
     \<lparr>fDice = None, szDiceFilename = [], rc = [], nMD5 = 0, sfmt = [],
      zModulus = 0, zSeed = 0, zZero = 0, zOne = 0, fZInit = False,
      counter_c = 0, seed_nz = 0, seed_n = 0, out = [], world = ()\<rparr>"

subsection \<open>The trit automaton on strings of bits\<close>

text \<open>
  A finite string of bits as a source of bits: \<open>next_bit\<close> takes the first one, and
  has none to give on the empty string. \<open>bit_strings n\<close> lists the \<open>2 ^ n\<close> strings
  of length \<open>n\<close>. The automaton, started in \<open>state\<close>, returns \<open>t\<close> on \<open>w\<close> with
  \<open>rest\<close> left over when the code's loop, reading from \<open>w\<close>, does. \<open>trit_count t n\<close>
  counts the strings of length \<open>n\<close> on which \<^verbatim>\<open>BBSGetTrit\<close> returns \<open>t\<close> after reading
  all of them, so that \<open>trit_count t n / 2 ^ n\<close> is the probability, under fair bits,
  that it returns \<open>t\<close> after exactly \<open>n\<close> bits; \<open>die_count\<close> is the same for one die.
  \<open>draw_bits getbit n src\<close> are the next \<open>n\<close> bits of any source.
\<close>

definition next_bit :: "u32 list \<Rightarrow> (u32 \<times> u32 list) option" where
  "next_bit w = (case w of [] \<Rightarrow> None | b # w' \<Rightarrow> Some (b, w'))"

definition bit_strings :: "nat \<Rightarrow> u32 list list" where
  "bit_strings n = List.n_lists n [0, 1]"

definition returns_on :: "u32 \<Rightarrow> u32 \<Rightarrow> u32 list \<Rightarrow> u32 list \<Rightarrow> bool" where
  "returns_on state t rest w \<longleftrightarrow> BBSGetTrit_loop next_bit state w = Some (t, rest)"

definition trit_count :: "u32 \<Rightarrow> nat \<Rightarrow> nat" where
  "trit_count t n = length (filter (returns_on 0 t []) (bit_strings n))"

definition die_count :: "u32 \<Rightarrow> nat \<Rightarrow> nat" where
  "die_count f n = length (filter (\<lambda>w. BBSDie next_bit w = Some (f, [])) (bit_strings n))"

primrec draw_bits ::
  "('s \<Rightarrow> (u32 \<times> 's) option) \<Rightarrow> nat \<Rightarrow> 's \<Rightarrow> (u32 list \<times> 's) option" where
  "draw_bits getbit 0 src = Some ([], src)"
| "draw_bits getbit (Suc n) src =
     (case getbit src of
        None \<Rightarrow> None
      | Some (b, src1) \<Rightarrow>
          (case draw_bits getbit n src1 of
             None \<Rightarrow> None
           | Some (bs, src2) \<Rightarrow> Some (b # bs, src2)))"

definition count_from :: "u32 \<Rightarrow> u32 \<Rightarrow> u32 list \<Rightarrow> nat \<Rightarrow> nat" where
  "count_from state t rest n = length (filter (returns_on state t rest) (bit_strings n))"

subsection \<open>The seed check\<close>

text \<open>
  The seed check in the words of the specification. \<open>sq_iter m k z\<close> is \<open>z\<close> squared
  \<open>k\<close> times modulo \<open>m\<close>. A seed \<open>s\<close> has a short cycle when the reference point,
  reached after 8 squarings, comes back within 16 more. Attempt \<open>k\<close> (of 32, counted
  from 0) tests the seed \<open>s + k\<close>; it is the accepted one when it has no short cycle
  and every earlier attempt has one, and the attempts are exhausted when all 32 have.
\<close>

primrec sq_iter :: "mpz \<Rightarrow> nat \<Rightarrow> mpz \<Rightarrow> mpz" where
  "sq_iter m 0 z = z"
| "sq_iter m (Suc k) z = sq_iter m k (mpz_powm_ui2 z m)"

definition short_cycle :: "mpz \<Rightarrow> mpz \<Rightarrow> bool" where
  "short_cycle m s \<longleftrightarrow> (\<exists>j \<in> {1..16}. sq_iter m (8 + j) s = sq_iter m 8 s)"

definition seed_accepted_at :: "mpz \<Rightarrow> mpz \<Rightarrow> nat \<Rightarrow> bool" where
  "seed_accepted_at m s k \<longleftrightarrow>
     k < 32 \<and> (\<forall>j \<in> {..<k}. short_cycle m (s + int j)) \<and> \<not> short_cycle m (s + int k)"

definition seed_exhausted :: "mpz \<Rightarrow> mpz \<Rightarrow> bool" where
  "seed_exhausted m s \<longleftrightarrow> (\<forall>j \<in> {..<32}. short_cycle m (s + int j))"

definition seed_failure :: "('i, 'm, 'w) machine \<Rightarrow> ('i, 'm, 'w) machine" where
  "seed_failure ctx =
     ctx\<lparr>zSeed := zZero ctx, out := out ctx @ [InvalidSeedOrModulus, PleaseResetSeed]\<rparr>"

text \<open>
  The first \<open>n\<close> values of the squaring sequence from \<open>z\<close>, to evaluate the test
  on a concrete seed.
\<close>

primrec orbit :: "mpz \<Rightarrow> mpz \<Rightarrow> nat \<Rightarrow> mpz list" where
  "orbit m z 0 = []"
| "orbit m z (Suc n) = z # orbit m (mpz_powm_ui2 z m) n"

subsection \<open>Blum factors\<close>

text \<open>
  \<open>next_good ext x y\<close>: \<open>y\<close> is the smallest good integer above \<open>x\<close>. A primality
  test accepts the primes when it never answers 0 on one (as a Miller-Rabin test
  does).
\<close>

definition next_good :: "('i, 'm, 'w) externals \<Rightarrow> mpz \<Rightarrow> mpz \<Rightarrow> bool" where
  "next_good ext x y \<longleftrightarrow>
     x < y \<and> BBSGood ext y \<and> (\<forall>z \<in> set [x + 1..y - 1]. \<not> BBSGood ext z)"

definition accepts_primes :: "('i, 'm, 'w) externals \<Rightarrow> bool" where
  "accepts_primes ext \<longleftrightarrow> (\<forall>x. is_prime x \<longrightarrow> mpz_probab_prime_p ext x 10 \<noteq> 0)"

subsection \<open>Dice files\<close>

text \<open>
  The file format in the words of the specification: a byte is a face when it is one
  of the characters '1' to '6', and its value is the byte minus '0'. \<open>next_face bs\<close>
  skips the bytes that are no faces and gives the first face of \<open>bs\<close> with the number
  of bytes read up to and including it. \<open>read_dice n\<close> reads \<open>n\<close> dice one after
  the other.
\<close>

definition is_face :: "8 word \<Rightarrow> bool" where
  "is_face b \<longleftrightarrow> 0x31 \<le> b \<and> b \<le> 0x36"

definition face_of :: "8 word \<Rightarrow> u32" where
  "face_of b = ucast b - 0x30"

primrec next_face :: "8 word list \<Rightarrow> (u32 \<times> nat) option" where
  "next_face [] = None"
| "next_face (b # bs) =
     (if is_face b then Some (face_of b, 1)
      else map_option (\<lambda>(d, k). (d, Suc k)) (next_face bs))"

definition file_1936 :: "nat \<Rightarrow> dicefile" where
  "file_1936 p = \<lparr>f_bytes = [0x31, 0x39, 0x33, 0x36], f_pos = p, f_eof = False, f_err = False\<rparr>"

primrec read_dice ::
  "nat \<Rightarrow> ('i, 'm, 'w) machine \<Rightarrow> (u32 list \<times> ('i, 'm, 'w) machine) option" where
  "read_dice 0 ctx = Some ([], ctx)"
| "read_dice (Suc n) ctx = do {
     (d, ctx1) \<leftarrow> ReadDiceFile ctx;
     (ds, ctx2) \<leftarrow> read_dice n ctx1;
     Some (d # ds, ctx2)
   }"

subsection \<open>MD5 digests\<close>

text \<open>
  A digest is rejected when one of its two halves is not below the limit 4294967292.
  The dice of an accepted digest are \<open>1 + floor (half / q)\<close> for its two halves.
\<close>

definition md5_rejected :: "u32 \<times> u32 \<Rightarrow> bool" where
  "md5_rejected h \<longleftrightarrow> unat (fst h) \<ge> sample_limit \<or> unat (snd h) \<ge> sample_limit"

definition md5_dice :: "u32 \<times> u32 \<Rightarrow> u32 \<times> u32" where
  "md5_dice h = (of_nat (die_of_raw (fst h)), of_nat (die_of_raw (snd h)))"

subsection \<open>The substitution of the Mersenne Twister\<close>

text \<open>
  The roll after a substitution: \<open>fallback_roll ext prng c res\<close> says that \<open>res\<close> is
  what \<^verbatim>\<open>RollDice\<close> returns when its switch has left the context \<open>c\<close> and a pair out
  of range. The warning is printed once, \<^verbatim>\<open>SetRNG\<close> selects the Mersenne Twister, and
  the two dice are the first accepted draws of that generator; the value returned is 0.
\<close>

definition fallback_roll ::
  "('i, 'm, 'w) externals \<Rightarrow> rng \<Rightarrow> ('i, 'm, 'w) machine
     \<Rightarrow> int \<times> (u32 \<times> u32) \<times> rng \<times> ('i, 'm, 'w) machine \<Rightarrow> bool" where
  "fallback_roll ext prng c res \<longleftrightarrow>
     (let c' = reselect ext prng RNG_MERSENNE (g_print GeneratorNotWorking c) in
      \<exists>k0 k1. both_accepted (sfmt_genrand_uint32 ext) (sfmt c') k0 k1 \<and>
        res = (case sampled_pair (sfmt_genrand_uint32 ext) (sfmt c') k0 k1 of
                 (d', g') \<Rightarrow> (0, d', RNG_MERSENNE, c'\<lparr>sfmt := g', counter_c := counter_c c' + 2\<rparr>)))"

subsection \<open>Seeded runs\<close>

text \<open>
  A seeded run: \<open>rolls ext k prng ctx\<close> calls \<^verbatim>\<open>RollDice\<close> \<open>k\<close> times, each call on
  the kind and the context that the call before has left, and gives the pairs in order
  with the last kind and context. \<open>seeded_rolls\<close> calls \<^verbatim>\<open>InitRNGSeed\<close> first, and
  \<open>seeded_dice\<close> keeps the pairs only. Two contexts have the same BBS parameters when
  they are initialised and agree on the modulus and on the constants zero and one.
\<close>

primrec rolls ::
  "('i, 'm, 'w) externals \<Rightarrow> nat \<Rightarrow> rng \<Rightarrow> ('i, 'm, 'w) machine
     \<Rightarrow> ((u32 \<times> u32) list \<times> rng \<times> ('i, 'm, 'w) machine) option" where
  "rolls ext 0 prng ctx = Some ([], prng, ctx)"
| "rolls ext (Suc k) prng ctx = do {
     (r, d, prng1, ctx1) \<leftarrow> RollDice ext prng ctx;
     (ds, prng2, ctx2) \<leftarrow> rolls ext k prng1 ctx1;
     Some (d # ds, prng2, ctx2)
   }"

definition seeded_rolls ::
  "('i, 'm, 'w) externals \<Rightarrow> u32 \<Rightarrow> rng \<Rightarrow> nat \<Rightarrow> ('i, 'm, 'w) machine
     \<Rightarrow> ((u32 \<times> u32) list \<times> rng \<times> ('i, 'm, 'w) machine) option" where
  "seeded_rolls ext n rngx k ctx = do {
     ctx1 \<leftarrow> InitRNGSeed ext n rngx ctx;
     rolls ext k rngx ctx1
   }"

definition seeded_dice ::
  "('i, 'm, 'w) externals \<Rightarrow> u32 \<Rightarrow> rng \<Rightarrow> nat \<Rightarrow> ('i, 'm, 'w) machine
     \<Rightarrow> (u32 \<times> u32) list option" where
  "seeded_dice ext n rngx k ctx = map_option fst (seeded_rolls ext n rngx k ctx)"

definition same_bbs_parameters :: "('i, 'm, 'w) machine \<Rightarrow> ('i, 'm, 'w) machine \<Rightarrow> bool" where
  "same_bbs_parameters c1 c2 \<longleftrightarrow>
     fZInit c1 \<and> fZInit c2 \<and> zModulus c1 = zModulus c2 \<and> zZero c1 = zZero c2 \<and> zOne c1 = zOne c2"

text \<open>Two contexts in which the BBS generator stands at the same point.\<close>

definition same_bbs :: "('i, 'm, 'w) machine \<Rightarrow> ('i, 'm, 'w) machine \<Rightarrow> bool" where
  "same_bbs c1 c2 \<longleftrightarrow>
     zSeed c1 = zSeed c2 \<and> zModulus c1 = zModulus c2 \<and> zZero c1 = zZero c2 \<and> zOne c1 = zOne c2"

section \<open>Proofs\<close>

subsection \<open>The rejection sampler\<close>

lemma sample_consts: "sample_q = 715827882" "sample_limit = 4294967292"
  by (simp_all add: sample_q_def sample_limit_def)

lemma exp232_consts: "unat exp232_q = sample_q" "unat exp232_l = sample_limit"
  by (simp_all add: exp232_q_def exp232_l_def sample_consts)

lemma unat_u32_less: "unat (r::u32) < 4294967296"
  using unsigned_less [of r] by simp

lemma unat_ucast_u32: "unat (ucast (r::u32) :: ulong) = unat r"
proof -
  have "unat r < 18446744073709551616"
    using unat_u32_less [of r] by simp
  then show ?thesis
    by (simp add: unsigned_ucast_eq take_bit_nat_eq_self_iff)
qed

lemma ucast_ge_limit: "((ucast (r::u32) :: ulong) \<ge> exp232_l) = (unat r \<ge> 4294967292)"
  by (simp add: exp232_l_def word_le_nat_alt unat_ucast_u32)


lemma nth_draw_Suc: "nth_draw gen g (Suc k) = nth_draw gen (snd (gen g)) k"
  by (simp add: nth_draw_def nth_state.simps)

lemma first_accepted_0: "first_accepted gen g 0 \<longleftrightarrow> unat (fst (gen g)) < 4294967292"
  by (simp add: first_accepted_def nth_draw_def sample_consts)

lemma first_accepted_Suc:
  "first_accepted gen g (Suc k) \<longleftrightarrow>
     unat (fst (gen g)) \<ge> 4294967292 \<and> first_accepted gen (snd (gen g)) k"
proof -
  have "(\<forall>j \<in> {..<Suc k}. P j) \<longleftrightarrow> P 0 \<and> (\<forall>j \<in> {..<k}. P (Suc j))" for P
    by (metis lessThan_iff less_Suc_eq_0_disj)
  then show ?thesis
    by (simp add: first_accepted_def nth_draw_Suc sample_consts) (simp add: nth_draw_def)
qed

lemma try_again_step:
  "try_again gen g =
     (if unat (fst (gen g)) \<ge> 4294967292 then try_again gen (snd (gen g))
      else Some (ucast (fst (gen g)), snd (gen g)))"
  by (subst try_again.simps) (simp add: ucast_ge_limit split: prod.split)

lemma try_again_accepts:
  "first_accepted gen g k \<Longrightarrow>
     try_again gen g = Some (ucast (nth_draw gen g k), nth_state gen g (Suc k))"
proof (induction k arbitrary: g)
  case 0
  then show ?case
    by (subst try_again_step) (simp add: first_accepted_0 nth_draw_def)
next
  case (Suc k)
  then show ?case
    by (subst try_again_step) (simp add: first_accepted_Suc nth_draw_Suc)
qed

lemma try_again_Some:
  "try_again gen g = Some y \<Longrightarrow>
     \<exists>k. first_accepted gen g k \<and> y = (ucast (nth_draw gen g k), nth_state gen g (Suc k))"
proof (induction gen g y rule: try_again.raw_induct [rotated 1, consumes 1])
  case (1 try_again' gen g y)
  obtain r g' where gen: "gen g = (r, g')" by (cases "gen g")
  show ?case
  proof (cases "unat r \<ge> 4294967292")
    case True
    with 1(2) gen have "try_again' gen g' = Some y"
      by (simp add: ucast_ge_limit)
    from 1(1)[OF this] obtain k where
      "first_accepted gen g' k" "y = (ucast (nth_draw gen g' k), nth_state gen g' (Suc k))"
      by blast
    with True gen have "first_accepted gen g (Suc k) \<and>
        y = (ucast (nth_draw gen g (Suc k)), nth_state gen g (Suc (Suc k)))"
      by (simp add: first_accepted_Suc nth_draw_Suc)
    then show ?thesis by blast
  next
    case False
    with 1(2) gen have "y = (ucast r, g')"
      by (simp add: ucast_ge_limit)
    with False gen have "first_accepted gen g 0 \<and>
        y = (ucast (nth_draw gen g 0), nth_state gen g (Suc 0))"
      by (simp add: first_accepted_0 nth_draw_def)
    then show ?thesis by blast
  qed
qed

lemma first_accepted_unique:
  "first_accepted gen g k \<Longrightarrow> first_accepted gen g k' \<Longrightarrow> k = k'"
  unfolding first_accepted_def
  by (metis lessThan_iff linorder_neqE_nat not_le)

lemma raw_div_le: "unat (r::u32) div 715827882 \<le> 6"
proof -
  have "unat r div 715827882 \<le> 4294967295 div 715827882"
    using unat_u32_less [of r] by (intro div_le_mono) simp
  then show ?thesis by simp
qed

lemma die_code_unat:
  "unat (1 + ucast ((ucast (r::u32) :: ulong) div exp232_q) :: u32) = die_of_raw r"
proof -
  let ?w = "(ucast r :: ulong) div exp232_q"
  have w: "unat ?w = unat r div 715827882"
    by (simp add: unat_div unat_ucast_u32 exp232_q_def)
  have "unat (ucast ?w :: u32) = unat ?w"
    using raw_div_le [of r] w
    by (simp add: unsigned_ucast_eq take_bit_nat_eq_self_iff)
  then have "unat (1 + ucast ?w :: u32) = 1 + unat ?w"
    using raw_div_le [of r] w
    by (simp add: unat_word_ariths)
  then show ?thesis
    by (simp add: die_of_raw_def w sample_consts)
qed

lemma die_of_raw_range: "unat r < 4294967292 \<Longrightarrow> 1 \<le> die_of_raw r \<and> die_of_raw r \<le> 6"
  by (simp add: die_of_raw_def sample_consts)

lemma die_code_range:
  assumes "unat (r::u32) < 4294967292"
  shows "1 \<le> (1 + ucast ((ucast r :: ulong) div exp232_q) :: u32)"
    and "(1 + ucast ((ucast r :: ulong) div exp232_q) :: u32) \<le> 6"
  using die_code_unat [of r] die_of_raw_range [OF assms]
  by (simp_all add: word_le_nat_alt)

lemma raw_interval_nat:
  fixes x f :: nat
  assumes "1 \<le> f" "f \<le> 6"
  shows "(x < 4294967292 \<and> 1 + x div 715827882 = f)
       = ((f - 1) * 715827882 \<le> x \<and> x < f * 715827882)"
proof -
  define d where "d = x div 715827882"
  have A: "(f - 1 \<le> d) = ((f - 1) * 715827882 \<le> x)"
    unfolding d_def by (simp add: less_eq_div_iff_mult_less_eq)
  have B: "(d < f) = (x < f * 715827882)"
    unfolding d_def by (simp add: div_less_iff_less_mult)
  have C: "f * 715827882 \<le> 4294967292"
    using assms(2) by simp
  have "(x < 4294967292 \<and> 1 + d = f) = ((f - 1) * 715827882 \<le> x \<and> x < f * 715827882)"
    using A B C assms(1) by linarith
  then show ?thesis
    by (simp add: d_def)
qed

lemma raw_interval:
  assumes "f \<in> {1..6}"
  shows "{r::u32. unat r < 4294967292 \<and> die_of_raw r = f}
       = {r. (f - 1) * 715827882 \<le> unat r \<and> unat r < f * 715827882}"
  using assms raw_interval_nat [of f] by (simp add: die_of_raw_def sample_consts)

lemma unat_of_nat_u32: "x < 4294967296 \<Longrightarrow> unat (of_nat x :: u32) = x"
  by (simp add: unat_of_nat)

lemma card_unat_interval:
  assumes "b \<le> 4294967296"
  shows "card {r::u32. a \<le> unat r \<and> unat r < b} = b - a"
proof -
  let ?S = "{r::u32. a \<le> unat r \<and> unat r < b}"
  have img: "unat ` ?S = {a..<b}"
  proof (rule set_eqI, rule iffI)
    fix x assume "x \<in> unat ` ?S"
    then obtain r :: u32 where "x = unat r" "a \<le> unat r" "unat r < b"
      by blast
    then show "x \<in> {a..<b}" by simp
  next
    fix x assume x: "x \<in> {a..<b}"
    then have "x < b" by simp
    then have "x < 4294967296" using assms by (rule less_le_trans)
    then have u: "unat (of_nat x :: u32) = x"
      by (rule unat_of_nat_u32)
    have "(of_nat x :: u32) \<in> ?S"
      using x unfolding mem_Collect_eq u by simp
    then have "unat (of_nat x :: u32) \<in> unat ` ?S"
      by (rule imageI)
    then show "x \<in> unat ` ?S"
      unfolding u .
  qed
  have inj: "inj_on unat ?S"
    by (rule inj_onI) (simp only: word_unat_eq_iff)
  have "card (unat ` ?S) = card ?S"
    using inj by (rule card_image)
  then show ?thesis
    unfolding img by simp
qed

lemma RollDice_None: "RollDice_switch ext prng ctx = None \<Longrightarrow> RollDice ext prng ctx = None"
  by (subst RollDice.simps) simp

lemma RollDice_Return:
  "RollDice_switch ext prng ctx = Some (Return r (d, c)) \<Longrightarrow>
     RollDice ext prng ctx = Some (r, d, prng, c)"
  by (subst RollDice.simps) simp

lemma RollDice_Break_ok:
  "RollDice_switch ext prng ctx = Some (Break (d, c)) \<Longrightarrow> \<not> out_of_range d \<Longrightarrow>
     RollDice ext prng ctx = Some (0, d, prng, c)"
  by (subst RollDice.simps) (simp add: out_of_range_def)

lemma RollDice_Break_fallback:
  "RollDice_switch ext prng ctx = Some (Break (d, c)) \<Longrightarrow> out_of_range d \<Longrightarrow>
     RollDice ext prng ctx =
       map_option (\<lambda>(r, d', p, c'). (0, d', p, c'))
         (RollDice ext RNG_MERSENNE (reselect ext prng RNG_MERSENNE (g_print GeneratorNotWorking c)))"
  apply (subst RollDice.simps)
  apply (simp add: out_of_range_def SetRNG_def)
  apply (cases "RollDice ext RNG_MERSENNE (reselect ext prng RNG_MERSENNE (g_print GeneratorNotWorking c))")
  apply (auto)
  done

lemma die_code_of_nat:
  "(1 + ucast ((ucast (r::u32) :: ulong) div exp232_q) :: u32) = of_nat (die_of_raw r)"
  using die_code_unat [of r] by (metis of_nat_unat ucast_id)

lemma die_in_range:
  assumes "unat (r::u32) < 4294967292"
  shows "\<not> (of_nat (die_of_raw r) :: u32) < 1" "\<not> (of_nat (die_of_raw r) :: u32) > 6"
proof -
  have "unat (of_nat (die_of_raw r) :: u32) = die_of_raw r"
    using die_code_unat [of r] by (simp add: die_code_of_nat)
  then show "\<not> (of_nat (die_of_raw r) :: u32) < 1" "\<not> (of_nat (die_of_raw r) :: u32) > 6"
    using die_of_raw_range [OF assms] by (simp_all add: word_less_nat_alt)
qed

lemma sampled_pair_in_range:
  assumes "both_accepted gen g k0 k1"
  shows "\<not> out_of_range (fst (sampled_pair gen g k0 k1))"
proof -
  have "unat (nth_draw gen g k0) < 4294967292"
       "unat (nth_draw gen (nth_state gen g (Suc k0)) k1) < 4294967292"
    using assms by (simp_all add: both_accepted_def first_accepted_def sample_consts)
  then show ?thesis
    using die_in_range
    by (simp add: out_of_range_def sampled_pair_def Let_def del: nth_state.simps)
qed

lemma try_again_pair:
  "(do { (t0, g1) \<leftarrow> try_again gen g; (t1, g2) \<leftarrow> try_again gen g1; Some (F t0 t1 g2) } = Some y)
   \<longleftrightarrow> (\<exists>k0 k1. both_accepted gen g k0 k1 \<and>
          y = F (ucast (nth_draw gen g k0)) (ucast (nth_draw gen (nth_state gen g (Suc k0)) k1))
                (nth_state gen (nth_state gen g (Suc k0)) (Suc k1)))"
  (is "?L \<longleftrightarrow> ?R")
proof
  assume ?L
  then obtain t0 g1 t1 g2 where a: "try_again gen g = Some (t0, g1)"
      and b: "try_again gen g1 = Some (t1, g2)" and y: "y = F t0 t1 g2"
    by (auto simp: bind_eq_Some_conv)
  from try_again_Some [OF a] obtain k0 where k0: "first_accepted gen g k0"
    "t0 = ucast (nth_draw gen g k0)" "g1 = nth_state gen g (Suc k0)" by auto
  from try_again_Some [OF b] obtain k1 where k1: "first_accepted gen g1 k1"
    "t1 = ucast (nth_draw gen g1 k1)" "g2 = nth_state gen g1 (Suc k1)" by auto
  show ?R
    using k0 k1 y unfolding both_accepted_def by blast
next
  assume ?R
  then obtain k0 k1 where k: "first_accepted gen g k0"
     "first_accepted gen (nth_state gen g (Suc k0)) k1"
     and y: "y = F (ucast (nth_draw gen g k0)) (ucast (nth_draw gen (nth_state gen g (Suc k0)) k1))
                (nth_state gen (nth_state gen g (Suc k0)) (Suc k1))"
    unfolding both_accepted_def by blast
  show ?L
    using try_again_accepts [OF k(1)] try_again_accepts [OF k(2)] y by simp
qed

lemma first_accepted_less: "first_accepted gen g k \<Longrightarrow> unat (nth_draw gen g k) < 4294967292"
  by (simp add: first_accepted_def sample_consts)

lemma RollDice_ISAAC_iff:
  "RollDice ext RNG_ISAAC ctx = Some res \<longleftrightarrow>
     (\<exists>k0 k1. both_accepted (irand ext) (rc ctx) k0 k1 \<and>
        res = (case sampled_pair (irand ext) (rc ctx) k0 k1 of
                 (d, g') \<Rightarrow> (0, d, RNG_ISAAC, ctx\<lparr>rc := g', counter_c := counter_c ctx + 2\<rparr>)))"
  (is "?L \<longleftrightarrow> ?R")
proof -
  let ?sw = "RollDice_switch ext RNG_ISAAC ctx"
  have sw: "?sw = Some y \<longleftrightarrow>
      (\<exists>k0 k1. both_accepted (irand ext) (rc ctx) k0 k1 \<and>
         y = (case sampled_pair (irand ext) (rc ctx) k0 k1 of
                (d, g') \<Rightarrow> Break (d, ctx\<lparr>rc := g', counter_c := counter_c ctx + 2\<rparr>)))" for y
    unfolding RollDice_switch_def
    by (simp add: try_again_pair sampled_pair_def die_code_of_nat Let_def)
  show ?thesis
  proof
    assume L: ?L
    then obtain y where y: "?sw = Some y"
      using RollDice_None [of ext RNG_ISAAC ctx] by (cases ?sw) auto
    then obtain k0 k1 where k: "both_accepted (irand ext) (rc ctx) k0 k1"
       and yy: "y = (case sampled_pair (irand ext) (rc ctx) k0 k1 of
                (d, g') \<Rightarrow> Break (d, ctx\<lparr>rc := g', counter_c := counter_c ctx + 2\<rparr>))"
      using sw by blast
    obtain d g' where sp: "sampled_pair (irand ext) (rc ctx) k0 k1 = (d, g')"
      by (cases "sampled_pair (irand ext) (rc ctx) k0 k1")
    have "\<not> out_of_range d"
      using sampled_pair_in_range [OF k] sp by simp
    with y yy sp L have "res = (0, d, RNG_ISAAC, ctx\<lparr>rc := g', counter_c := counter_c ctx + 2\<rparr>)"
      using RollDice_Break_ok [of ext RNG_ISAAC ctx d] by auto
    with k sp show ?R
      by (intro exI [of _ k0] exI [of _ k1]) simp
  next
    assume ?R
    then obtain k0 k1 where k: "both_accepted (irand ext) (rc ctx) k0 k1"
       and res: "res = (case sampled_pair (irand ext) (rc ctx) k0 k1 of
                 (d, g') \<Rightarrow> (0, d, RNG_ISAAC, ctx\<lparr>rc := g', counter_c := counter_c ctx + 2\<rparr>))"
      by blast
    obtain d g' where sp: "sampled_pair (irand ext) (rc ctx) k0 k1 = (d, g')"
      by (cases "sampled_pair (irand ext) (rc ctx) k0 k1")
    have "\<not> out_of_range d"
      using sampled_pair_in_range [OF k] sp by simp
    moreover have "?sw = Some (Break (d, ctx\<lparr>rc := g', counter_c := counter_c ctx + 2\<rparr>))"
      unfolding sw using k sp by (intro exI [of _ k0] exI [of _ k1]) simp
    ultimately show ?L
      using RollDice_Break_ok [of ext RNG_ISAAC ctx d] res sp by simp
  qed
qed

lemma RollDice_sampler:
  assumes sw: "RollDice_switch ext prng ctx = do {
          (t0, g1) \<leftarrow> try_again gen g;
          (t1, g2) \<leftarrow> try_again gen g1;
          Some (Break ((1 + ucast (t0 div exp232_q), 1 + ucast (t1 div exp232_q)), upd g2))
        }"
  shows "RollDice ext prng ctx = Some res \<longleftrightarrow>
     (\<exists>k0 k1. both_accepted gen g k0 k1 \<and>
        res = (case sampled_pair gen g k0 k1 of (d, g') \<Rightarrow> (0, d, prng, upd g')))"
  (is "?L \<longleftrightarrow> ?R")
proof -
  let ?sw = "RollDice_switch ext prng ctx"
  have sw: "?sw = Some y \<longleftrightarrow>
      (\<exists>k0 k1. both_accepted gen g k0 k1 \<and>
         y = (case sampled_pair gen g k0 k1 of (d, g') \<Rightarrow> Break (d, upd g')))" for y
    unfolding sw
    by (simp add: try_again_pair sampled_pair_def die_code_of_nat Let_def)
  show ?thesis
  proof
    assume L: ?L
    then obtain y where y: "?sw = Some y"
      using RollDice_None [of ext prng ctx] by (cases ?sw) auto
    then obtain k0 k1 where k: "both_accepted gen g k0 k1"
       and yy: "y = (case sampled_pair gen g k0 k1 of (d, g') \<Rightarrow> Break (d, upd g'))"
      using sw by blast
    obtain d g' where sp: "sampled_pair gen g k0 k1 = (d, g')"
      by (cases "sampled_pair gen g k0 k1")
    have "\<not> out_of_range d"
      using sampled_pair_in_range [OF k] sp by simp
    with y yy sp L have "res = (0, d, prng, upd g')"
      using RollDice_Break_ok [of ext prng ctx d] by auto
    with k sp show ?R
      by (intro exI [of _ k0] exI [of _ k1]) simp
  next
    assume ?R
    then obtain k0 k1 where k: "both_accepted gen g k0 k1"
       and res: "res = (case sampled_pair gen g k0 k1 of (d, g') \<Rightarrow> (0, d, prng, upd g'))"
      by blast
    obtain d g' where sp: "sampled_pair gen g k0 k1 = (d, g')"
      by (cases "sampled_pair gen g k0 k1")
    have "\<not> out_of_range d"
      using sampled_pair_in_range [OF k] sp by simp
    moreover have "?sw = Some (Break (d, upd g'))"
      unfolding sw using k sp by (intro exI [of _ k0] exI [of _ k1]) simp
    ultimately show ?L
      using RollDice_Break_ok [of ext prng ctx d] res sp by simp
  qed
qed

lemma RollDice_ISAAC:
  "RollDice ext RNG_ISAAC ctx = Some res \<longleftrightarrow>
     (\<exists>k0 k1. both_accepted (irand ext) (rc ctx) k0 k1 \<and>
        res = (case sampled_pair (irand ext) (rc ctx) k0 k1 of
                 (d, g') \<Rightarrow> (0, d, RNG_ISAAC, ctx\<lparr>rc := g', counter_c := counter_c ctx + 2\<rparr>)))"
  by (rule RollDice_sampler) (simp add: RollDice_switch_def)

lemma RollDice_MERSENNE:
  "RollDice ext RNG_MERSENNE ctx = Some res \<longleftrightarrow>
     (\<exists>k0 k1. both_accepted (sfmt_genrand_uint32 ext) (sfmt ctx) k0 k1 \<and>
        res = (case sampled_pair (sfmt_genrand_uint32 ext) (sfmt ctx) k0 k1 of
                 (d, g') \<Rightarrow> (0, d, RNG_MERSENNE, ctx\<lparr>sfmt := g', counter_c := counter_c ctx + 2\<rparr>)))"
  by (rule RollDice_sampler) (simp add: RollDice_switch_def)

lemma unat_die_of_raw: "unat (of_nat (die_of_raw r) :: u32) = die_of_raw r"
  using die_code_unat [of r] by (simp add: die_code_of_nat)

lemma sampled_pair_faces:
  assumes "both_accepted gen g k0 k1"
  shows "unat (fst (fst (sampled_pair gen g k0 k1))) \<in> {1..6}"
    and "unat (snd (fst (sampled_pair gen g k0 k1))) \<in> {1..6}"
proof -
  have "unat (nth_draw gen g k0) < 4294967292"
       "unat (nth_draw gen (nth_state gen g (Suc k0)) k1) < 4294967292"
    using assms by (simp_all add: both_accepted_def first_accepted_def sample_consts)
  then show "unat (fst (fst (sampled_pair gen g k0 k1))) \<in> {1..6}"
    and "unat (snd (fst (sampled_pair gen g k0 k1))) \<in> {1..6}"
    using die_of_raw_range
    by (simp_all add: sampled_pair_def Let_def unat_die_of_raw del: nth_state.simps)
qed

lemma card_face:
  assumes "f \<in> {1..6}"
  shows "card {r::u32. unat r < sample_limit \<and> die_of_raw r = f} = sample_q"
proof -
  have "f * 715827882 \<le> 4294967296"
    using assms by simp
  then have "card {r::u32. (f - 1) * 715827882 \<le> unat r \<and> unat r < f * 715827882}
      = f * 715827882 - (f - 1) * 715827882"
    by (rule card_unat_interval)
  also have "\<dots> = 715827882"
    using assms by (simp add: diff_mult_distrib)
  finally show ?thesis
    using raw_interval [OF assms] by (simp add: sample_consts)
qed

text \<open>
  Claim C1. For ISAAC and the Mersenne Twister, \<^verbatim>\<open>RollDice\<close> returns exactly when
  both dice find an accepted draw, and then each die is \<open>1 + floor (r / q)\<close> for the
  first raw draw \<open>r\<close> below \<open>limit = 6 * q\<close>, every earlier draw having been
  discarded; the generator is left after the accepted draws and the counter grows by 2.
  Such a die lies in 1..6, each face comes from exactly \<open>q\<close> of the accepted raw
  values, and the constants of the code are \<open>q = floor (2^32 / 6) = 715827882\<close> and
  \<open>limit = 4294967292\<close>.
\<close>

theorem RollDice_rejection_sampling:
  "(RollDice ext RNG_ISAAC ctx = Some res \<longleftrightarrow>
      (\<exists>k0 k1. both_accepted (irand ext) (rc ctx) k0 k1 \<and>
         res = (case sampled_pair (irand ext) (rc ctx) k0 k1 of
                  (d, g') \<Rightarrow> (0, d, RNG_ISAAC, ctx\<lparr>rc := g', counter_c := counter_c ctx + 2\<rparr>))))
   \<and> (RollDice ext RNG_MERSENNE ctx = Some res \<longleftrightarrow>
      (\<exists>k0 k1. both_accepted (sfmt_genrand_uint32 ext) (sfmt ctx) k0 k1 \<and>
         res = (case sampled_pair (sfmt_genrand_uint32 ext) (sfmt ctx) k0 k1 of
                  (d, g') \<Rightarrow> (0, d, RNG_MERSENNE, ctx\<lparr>sfmt := g', counter_c := counter_c ctx + 2\<rparr>))))
   \<and> (both_accepted gen g k0 k1 \<longrightarrow>
        unat (fst (fst (sampled_pair gen g k0 k1))) \<in> {1..6} \<and>
        unat (snd (fst (sampled_pair gen g k0 k1))) \<in> {1..6})
   \<and> (\<forall>f \<in> {1..6}. card {r::u32. unat r < sample_limit \<and> die_of_raw r = f} = sample_q)
   \<and> unat exp232_q = sample_q \<and> unat exp232_l = sample_limit
   \<and> sample_q = 715827882 \<and> sample_limit = 4294967292"
proof (intro conjI impI ballI)
  fix f :: nat assume "f \<in> {1..6}"
  then show "card {r::u32. unat r < sample_limit \<and> die_of_raw r = f} = sample_q"
    by (rule card_face)
qed (rule RollDice_ISAAC RollDice_MERSENNE sampled_pair_faces exp232_consts sample_consts, assumption?)+

theorem RollDice_rejection_sampling_witness:
  "RollDice scripted RNG_ISAAC
     (ctx0\<lparr>rc := [4294967295, 1431655765, 4294967293, 4294967291, 7]\<rparr>)
   = Some (0, (3, 6), RNG_ISAAC, ctx0\<lparr>rc := [7], counter_c := 2\<rparr>)"
proof -
  let ?g = "[4294967295, 1431655765, 4294967293, 4294967291, 7] :: u32 list"
  let ?c = "ctx0\<lparr>rc := ?g\<rparr>"
  have acc: "both_accepted list_gen ?g (Suc 0) (Suc 0)"
    by (simp add: both_accepted_def first_accepted_Suc first_accepted_0 list_gen_def)
  have sp: "sampled_pair list_gen ?g (Suc 0) (Suc 0) = ((3, 6), [7])"
    by (simp add: sampled_pair_def nth_draw_def list_gen_def die_of_raw_def sample_consts)
  have "both_accepted (irand scripted) (rc ?c) (Suc 0) (Suc 0) \<and>
      (0, (3, 6), RNG_ISAAC, ctx0\<lparr>rc := [7], counter_c := 2\<rparr>) =
        (case sampled_pair (irand scripted) (rc ?c) (Suc 0) (Suc 0) of
           (d, g') \<Rightarrow> (0, d, RNG_ISAAC, ?c\<lparr>rc := g', counter_c := counter_c ?c + 2\<rparr>))"
    using acc sp by (simp add: scripted_def ctx0_def)
  then have "\<exists>k0 k1. both_accepted (irand scripted) (rc ?c) k0 k1 \<and>
      (0, (3, 6), RNG_ISAAC, ctx0\<lparr>rc := [7], counter_c := 2\<rparr>) =
        (case sampled_pair (irand scripted) (rc ?c) k0 k1 of
           (d, g') \<Rightarrow> (0, d, RNG_ISAAC, ?c\<lparr>rc := g', counter_c := counter_c ?c + 2\<rparr>))"
    by (intro exI)
  then show ?thesis
    by (rule RollDice_rejection_sampling [THEN conjunct1, THEN iffD2])
qed

subsection \<open>The trit automaton\<close>

lemma u32_le_4: "(state::u32) \<le> 4 \<Longrightarrow> state = 0 \<or> state = 1 \<or> state = 2 \<or> state = 3 \<or> state = 4"
proof -
  assume "state \<le> 4"
  then have "unat state \<le> 4"
    by (simp add: word_le_nat_alt)
  then have "unat state = 0 \<or> unat state = 1 \<or> unat state = 2 \<or> unat state = 3 \<or> unat state = 4"
    by linarith
  then show ?thesis
    by (simp add: word_unat_eq_iff)
qed

lemma loop_Nil: "state \<le> 4 \<Longrightarrow> BBSGetTrit_loop next_bit state [] = None"
  by (drule u32_le_4) (subst BBSGetTrit_loop.simps, auto simp: next_bit_def)

lemma loop_0: "BBSGetTrit_loop next_bit 0 (b # w) = BBSGetTrit_loop next_bit (b + 1) w"
  by (subst BBSGetTrit_loop.simps) (simp add: next_bit_def)

lemma loop_1: "BBSGetTrit_loop next_bit 1 (b # w) =
    (if b \<noteq> 0 then BBSGetTrit_loop next_bit 3 w else Some (0, w))"
  by (subst BBSGetTrit_loop.simps) (simp add: next_bit_def)

lemma loop_2: "BBSGetTrit_loop next_bit 2 (b # w) =
    (if b \<noteq> 0 then Some (2, w) else BBSGetTrit_loop next_bit 4 w)"
  by (subst BBSGetTrit_loop.simps) (simp add: next_bit_def)

lemma loop_3: "BBSGetTrit_loop next_bit 3 (b # w) =
    (if b \<noteq> 0 then Some (1, w) else BBSGetTrit_loop next_bit 1 w)"
  by (subst BBSGetTrit_loop.simps) (simp add: next_bit_def)

lemma loop_4: "BBSGetTrit_loop next_bit 4 (b # w) =
    (if b \<noteq> 0 then BBSGetTrit_loop next_bit 2 w else Some (1, w))"
  by (subst BBSGetTrit_loop.simps) (simp add: next_bit_def)

lemma count_cons:
  "length (filter P (bit_strings (Suc n)))
     = length (filter (\<lambda>w. P (0 # w)) (bit_strings n)) + length (filter (\<lambda>w. P (1 # w)) (bit_strings n))"
proof -
  have "length (filter P (concat (map (\<lambda>ys. [0 # ys, 1 # ys]) L)))
      = length (filter (\<lambda>w. P (0 # w)) L) + length (filter (\<lambda>w. P (1 # w)) L)" for L :: "u32 list list"
    by (induction L) simp_all
  then show ?thesis
    by (simp add: bit_strings_def)
qed

lemma count_eq_rest:
  "length (filter (\<lambda>w. c \<and> w = rest) (bit_strings n))
     = (if c \<and> length rest = n \<and> set rest \<subseteq> {0, 1} then 1 else 0)"
proof -
  have one: "distinct L \<Longrightarrow> length (filter (\<lambda>w. w = rest) L) = (if rest \<in> set L then 1 else 0)"
    for L :: "u32 list list"
    by (induction L) auto
  have "distinct (bit_strings n)"
    by (simp add: bit_strings_def distinct_n_lists)
  moreover have "rest \<in> set (bit_strings n) \<longleftrightarrow> length rest = n \<and> set rest \<subseteq> {0, 1}"
    by (auto simp: bit_strings_def set_n_lists)
  ultimately show ?thesis
    using one [of "bit_strings n"] by (cases c) simp_all
qed

lemma returns_on_Nil: "state \<le> 4 \<Longrightarrow> \<not> returns_on state t rest []"
  by (simp add: returns_on_def loop_Nil)

lemma returns_on_Cons:
  "returns_on 0 t rest (b # w) = returns_on (b + 1) t rest w"
  "returns_on 1 t rest (b # w) = (if b \<noteq> 0 then returns_on 3 t rest w else t = 0 \<and> w = rest)"
  "returns_on 2 t rest (b # w) = (if b \<noteq> 0 then t = 2 \<and> w = rest else returns_on 4 t rest w)"
  "returns_on 3 t rest (b # w) = (if b \<noteq> 0 then t = 1 \<and> w = rest else returns_on 1 t rest w)"
  "returns_on 4 t rest (b # w) = (if b \<noteq> 0 then returns_on 2 t rest w else t = 1 \<and> w = rest)"
  by (auto simp: returns_on_def loop_0 loop_1 loop_2 loop_3 loop_4)

lemma count_from_0: "state \<le> 4 \<Longrightarrow> count_from state t rest 0 = 0"
  by (simp add: count_from_def bit_strings_def returns_on_Nil)

lemma count_from_Suc:
  assumes "set rest \<subseteq> {0, 1}"
  shows
  "count_from 0 t rest (Suc n) = count_from 1 t rest n + count_from 2 t rest n"
  "count_from 1 t rest (Suc n) = (if t = 0 \<and> length rest = n then 1 else 0) + count_from 3 t rest n"
  "count_from 2 t rest (Suc n) = count_from 4 t rest n + (if t = 2 \<and> length rest = n then 1 else 0)"
  "count_from 3 t rest (Suc n) = count_from 1 t rest n + (if t = 1 \<and> length rest = n then 1 else 0)"
  "count_from 4 t rest (Suc n) = (if t = 1 \<and> length rest = n then 1 else 0) + count_from 2 t rest n"
  using assms
  by (simp_all add: count_from_def count_cons returns_on_Cons count_eq_rest)

lemma count_closed:
  assumes "set rest \<subseteq> {0, 1}"
  shows "count_from 1 t rest n
           = (if n > length rest \<and> ((t = 0 \<and> odd (n - length rest)) \<or> (t = 1 \<and> even (n - length rest))) then 1 else 0)
       \<and> count_from 3 t rest n
           = (if n > length rest \<and> ((t = 0 \<and> even (n - length rest)) \<or> (t = 1 \<and> odd (n - length rest))) then 1 else 0)
       \<and> count_from 2 t rest n
           = (if n > length rest \<and> ((t = 2 \<and> odd (n - length rest)) \<or> (t = 1 \<and> even (n - length rest))) then 1 else 0)
       \<and> count_from 4 t rest n
           = (if n > length rest \<and> ((t = 2 \<and> even (n - length rest)) \<or> (t = 1 \<and> odd (n - length rest))) then 1 else 0)"
proof (induction n)
  case 0
  show ?case by (simp add: count_from_0)
next
  case (Suc n)
  consider "n < length rest" | "n = length rest" | "n > length rest" by linarith
  then show ?case
  proof cases
    case 1
    with Suc show ?thesis
      by (simp add: count_from_Suc [OF assms])
  next
    case 2
    with Suc show ?thesis
      by (simp add: count_from_Suc [OF assms])
  next
    case 3
    then have "Suc n - length rest = Suc (n - length rest)"
      by simp
    with 3 Suc show ?thesis
      by (simp add: count_from_Suc [OF assms])
  qed
qed

lemma count_from_start:
  assumes "set rest \<subseteq> {0, 1}"
  shows "count_from 0 t rest n
       = (if (t = 0 \<or> t = 2) \<and> n \<ge> length rest + 2 \<and> even (n - (length rest + 2)) then 1 else 0)
       + (if t = 1 \<and> n \<ge> length rest + 3 \<and> even (n - (length rest + 3)) then 2 else 0)"
proof (cases n)
  case 0
  then show ?thesis by (simp add: count_from_0)
next
  case (Suc k)
  have a: "(k > length rest \<and> odd (k - length rest))
       = (Suc k \<ge> length rest + 2 \<and> even (Suc k - (length rest + 2)))"
    by presburger
  have b: "(k > length rest \<and> even (k - length rest))
       = (Suc k \<ge> length rest + 3 \<and> even (Suc k - (length rest + 3)))"
    by presburger
  have "count_from 0 t rest (Suc k) = count_from 1 t rest k + count_from 2 t rest k"
    by (rule count_from_Suc [OF assms])
  also have "\<dots> =
      (if k > length rest \<and> ((t = 0 \<and> odd (k - length rest)) \<or> (t = 1 \<and> even (k - length rest))) then 1 else 0)
    + (if k > length rest \<and> ((t = 2 \<and> odd (k - length rest)) \<or> (t = 1 \<and> even (k - length rest))) then 1 else 0)"
    using count_closed [OF assms, of t k] by simp
  also have "\<dots> =
      (if (t = 0 \<or> t = 2) \<and> (k > length rest \<and> odd (k - length rest)) then 1 else 0)
    + (if t = 1 \<and> (k > length rest \<and> even (k - length rest)) then 2 else 0)"
    by auto
  finally show ?thesis
    unfolding a b Suc .
qed

lemma progression_sums:
  fixes c :: real
  shows "(\<lambda>n. if n \<ge> n0 \<and> even (n - n0) then c * (1 / 2) ^ n else 0) sums (c * (1 / 2) ^ n0 * (4 / 3))"
proof -
  let ?f = "\<lambda>n. if n \<ge> n0 \<and> even (n - n0) then c * (1 / 2) ^ n else (0::real)"
  let ?F = "\<lambda>j. c * (1 / 2) ^ n0 * (1 / 4) ^ j :: real"
  have "(\<lambda>j. (1 / 4 :: real) ^ j) sums (1 / (1 - 1 / 4))"
    by (rule geometric_sums) simp
  then have F: "?F sums (c * (1 / 2) ^ n0 * (4 / 3))"
    using sums_mult [of "\<lambda>j. (1 / 4 :: real) ^ j" "1 / (1 - 1 / 4)" "c * (1 / 2) ^ n0"] by simp
  have Z: "(\<lambda>j. 0 :: real) sums 0"
    by (rule sums_zero)
  have "(\<lambda>i. if even i then ?F (i div 2) else 0) sums (0 + c * (1 / 2) ^ n0 * (4 / 3))"
    using sums_if [OF Z F] by simp
  moreover have "(if even i then ?F (i div 2) else 0) = ?f (i + n0)" for i
  proof (cases "even i")
    case True
    then obtain j where "i = 2 * j" by (elim evenE)
    have "(1 / 2 :: real) ^ (2 * j) = ((1 / 2) ^ 2) ^ j"
      by (rule power_mult)
    also have "((1 / 2 :: real) ^ 2) = 1 / 4"
      by (simp add: power2_eq_square)
    finally have "(1 / 2 :: real) ^ (i + n0) = (1 / 2) ^ n0 * (1 / 4) ^ j"
      using \<open>i = 2 * j\<close> by (simp only: power_add mult.commute)
    with True \<open>i = 2 * j\<close> show ?thesis by simp
  next
    case False
    then show ?thesis by simp
  qed
  ultimately have "(\<lambda>i. ?f (i + n0)) sums (c * (1 / 2) ^ n0 * (4 / 3))"
    by simp
  moreover have "\<And>i. i < n0 \<Longrightarrow> ?f i = 0"
    by simp
  ultimately show ?thesis
    using sums_zero_iff_shift [of n0 ?f] by blast
qed

lemma trit_count_closed:
  "trit_count t n
     = (if (t = 0 \<or> t = 2) \<and> n \<ge> 2 \<and> even (n - 2) then 1 else 0)
     + (if t = 1 \<and> n \<ge> 3 \<and> even (n - 3) then 2 else 0)"
  using count_from_start [of "[]" t n] by (simp add: trit_count_def count_from_def)

lemma measure_sums:
  fixes c :: real
  assumes "\<And>n. a n = (if n \<ge> n0 \<and> even (n - n0) then c * (1 / 2) ^ n else 0)"
    and "c * (1 / 2) ^ n0 * (4 / 3) = v"
  shows "a sums v"
proof -
  have "a = (\<lambda>n. if n \<ge> n0 \<and> even (n - n0) then c * (1 / 2) ^ n else 0)"
    by (rule ext) (rule assms(1))
  then show ?thesis
    using progression_sums [of n0 c] assms(2) by (simp only:)
qed

lemma trit_sums:
  assumes "t \<in> {0, 1, 2}"
  shows "(\<lambda>n. real (trit_count t n) / 2 ^ n) sums (1 / 3)"
proof -
  consider "t = 0 \<or> t = 2" | "t = 1" using assms by auto
  then show ?thesis
  proof cases
    case 1
    then have "real (trit_count t n) / 2 ^ n
        = (if n \<ge> 2 \<and> even (n - 2) then 1 * (1 / 2) ^ n else 0)" for n
      by (auto simp: trit_count_closed power_divide)
    then show ?thesis
      by (rule measure_sums) (simp add: power2_eq_square)
  next
    case 2
    then have "real (trit_count t n) / 2 ^ n
        = (if n \<ge> 3 \<and> even (n - 3) then 2 * (1 / 2) ^ n else 0)" for n
      by (auto simp: trit_count_closed power_divide)
    then show ?thesis
      by (rule measure_sums) (simp add: power3_eq_cube)
  qed
qed

lemma returns_on_shape:
  "set w \<subseteq> {0, 1} \<Longrightarrow> state \<le> 4 \<Longrightarrow> returns_on state t rest w \<Longrightarrow>
     (t = 0 \<or> t = 1 \<or> t = 2) \<and> (\<exists>u. u \<noteq> [] \<and> w = u @ rest)"
proof (induction w arbitrary: state)
  case Nil
  then show ?case by (simp add: returns_on_Nil)
next
  case (Cons b w)
  have b: "b = 0 \<or> b = 1" using Cons.prems(1) by auto
  have IH: "\<And>s. s \<le> 4 \<Longrightarrow> returns_on s t rest w \<Longrightarrow>
      (t = 0 \<or> t = 1 \<or> t = 2) \<and> (\<exists>u. u \<noteq> [] \<and> b # w = u @ rest)"
  proof -
    fix s :: u32 assume "s \<le> 4" "returns_on s t rest w"
    with Cons.IH [of s] Cons.prems(1) obtain u where "t = 0 \<or> t = 1 \<or> t = 2" "u \<noteq> []" "w = u @ rest"
      by auto
    then have "b # u \<noteq> [] \<and> b # w = (b # u) @ rest" by simp
    with \<open>t = 0 \<or> t = 1 \<or> t = 2\<close> show "(t = 0 \<or> t = 1 \<or> t = 2) \<and> (\<exists>u. u \<noteq> [] \<and> b # w = u @ rest)"
      by blast
  qed
  have step: "(\<exists>s. s \<le> 4 \<and> returns_on s t rest w) \<or> ((t = 0 \<or> t = 1 \<or> t = 2) \<and> w = rest)"
    using u32_le_4 [OF Cons.prems(2)] b Cons.prems(3)
    by (elim disjE) (auto simp: returns_on_Cons split: if_splits)
  then consider (rec) s where "s \<le> 4" "returns_on s t rest w"
    | (now) "t = 0 \<or> t = 1 \<or> t = 2" "w = rest"
    by blast
  then show ?case
  proof cases
    case rec
    then show ?thesis by (rule IH)
  next
    case now
    then have "[b] \<noteq> [] \<and> b # w = [b] @ rest" by simp
    with now(1) show ?thesis by blast
  qed
qed

lemma loop_step:
  assumes "getbit src = Some (b, s0)"
  shows "BBSGetTrit_loop getbit 0 src = BBSGetTrit_loop getbit (b + 1) s0"
    and "BBSGetTrit_loop getbit 1 src = (if b \<noteq> 0 then BBSGetTrit_loop getbit 3 s0 else Some (0, s0))"
    and "BBSGetTrit_loop getbit 2 src = (if b \<noteq> 0 then Some (2, s0) else BBSGetTrit_loop getbit 4 s0)"
    and "BBSGetTrit_loop getbit 3 src = (if b \<noteq> 0 then Some (1, s0) else BBSGetTrit_loop getbit 1 s0)"
    and "BBSGetTrit_loop getbit 4 src = (if b \<noteq> 0 then BBSGetTrit_loop getbit 2 s0 else Some (1, s0))"
  by (subst BBSGetTrit_loop.simps, simp add: assms)+

lemma BBSGetTrit_loop_range:
  "BBSGetTrit_loop getbit state src = Some y \<Longrightarrow> fst y = 0 \<or> fst y = 1 \<or> fst y = 2"
proof (induction getbit state src y rule: BBSGetTrit_loop.raw_induct [rotated 1, consumes 1])
  case (1 loop getbit state src y)
  then show ?case
    by (auto split: if_splits option.splits prod.splits)
qed

lemma draw_bits_snoc:
  "draw_bits getbit (length (u @ [b])) src = Some (u @ [b], src') \<Longrightarrow>
     \<exists>s1. draw_bits getbit (length u) src = Some (u, s1) \<and> getbit s1 = Some (b, src')"
proof (induction u arbitrary: src)
  case Nil
  then show ?case by (auto split: option.splits)
next
  case (Cons a u)
  from Cons.prems obtain s0 where g: "getbit src = Some (a, s0)"
    and d: "draw_bits getbit (length (u @ [b])) s0 = Some (u @ [b], src')"
    by (auto split: option.splits)
  from Cons.IH [OF d] obtain s1 where "draw_bits getbit (length u) s0 = Some (u, s1)"
    "getbit s1 = Some (b, src')" by blast
  with g show ?case by simp
qed

lemma trit_simulation:
  "set (u @ rest) \<subseteq> {0, 1} \<Longrightarrow> state \<le> 4 \<Longrightarrow> returns_on state t rest (u @ rest) \<Longrightarrow>
   draw_bits getbit (length u) src = Some (u, s1) \<Longrightarrow>
   BBSGetTrit_loop getbit state src = Some (t, s1)"
proof (induction u arbitrary: state src)
  case Nil
  from returns_on_shape [OF Nil.prems(1,2,3)] show ?case by simp
next
  case (Cons b u)
  from Cons.prems(4) obtain s0 where g: "getbit src = Some (b, s0)"
    and d: "draw_bits getbit (length u) s0 = Some (u, s1)"
    by (auto split: option.splits)
  have b: "b = 0 \<or> b = 1" using Cons.prems(1) by auto
  have sub: "set (u @ rest) \<subseteq> {0, 1}" using Cons.prems(1) by simp
  have IH: "\<And>s. s \<le> 4 \<Longrightarrow> returns_on s t rest (u @ rest) \<Longrightarrow>
      BBSGetTrit_loop getbit s s0 = Some (t, s1)"
    using Cons.IH [OF sub _ _ d] by blast
  have now: "u @ rest = rest \<Longrightarrow> s1 = s0"
    using d by simp
  from u32_le_4 [OF Cons.prems(2)] b Cons.prems(3) show ?case
    by (elim disjE) (auto simp: returns_on_Cons loop_step [of getbit src b s0, OF g] IH now split: if_splits)
qed

lemma BBSDie_Some:
  "BBSDie getbit src = Some (f, src') \<longleftrightarrow>
     (\<exists>t s1 b. BBSGetTrit_loop getbit 0 src = Some (t, s1) \<and> getbit s1 = Some (b, src') \<and>
        f = t + b * 3 + 1)"
  by (auto simp: BBSDie_def bind_eq_Some_conv)

lemma next_bit_Some: "next_bit w1 = Some (b, w2) \<longleftrightarrow> w1 = b # w2"
  by (auto simp: next_bit_def split: list.splits)

lemma face_unique:
  fixes t b t' b' :: u32
  assumes "t = 0 \<or> t = 1 \<or> t = 2" "b = 0 \<or> b = 1" "t' = 0 \<or> t' = 1 \<or> t' = 2" "b' = 0 \<or> b' = 1"
    and "t' + b' * 3 + 1 = t + b * 3 + 1"
  shows "t' = t \<and> b' = b"
  using assms by (elim disjE) simp_all

lemma die_returns:
  assumes "t = 0 \<or> t = 1 \<or> t = 2" "b = 0 \<or> b = 1" "set w \<subseteq> {0, 1}"
  shows "(BBSDie next_bit w = Some (t + b * 3 + 1, [])) = returns_on 0 t [b] w"
proof
  assume "returns_on 0 t [b] w"
  then show "BBSDie next_bit w = Some (t + b * 3 + 1, [])"
    unfolding BBSDie_Some returns_on_def by (simp add: next_bit_Some)
next
  assume "BBSDie next_bit w = Some (t + b * 3 + 1, [])"
  then obtain t' b' where r: "returns_on 0 t' [b'] w" and f: "t + b * 3 + 1 = t' + b' * 3 + 1"
    unfolding BBSDie_Some returns_on_def by (auto simp: next_bit_Some)
  from returns_on_shape [OF assms(3) _ r] obtain u where
    t': "t' = 0 \<or> t' = 1 \<or> t' = 2" and w: "w = u @ [b']" by auto
  from w assms(3) have b': "b' = 0 \<or> b' = 1" by auto
  from face_unique [OF assms(1,2) t' b'] f have "t' = t \<and> b' = b" by simp
  with r show "returns_on 0 t [b] w" by simp
qed

lemma die_count_eq:
  assumes "t = 0 \<or> t = 1 \<or> t = 2" "b = 0 \<or> b = 1"
  shows "die_count (t + b * 3 + 1) n = count_from 0 t [b] n"
proof -
  have "filter (\<lambda>w. BBSDie next_bit w = Some (t + b * 3 + 1, [])) (bit_strings n)
      = filter (returns_on 0 t [b]) (bit_strings n)"
    by (rule filter_cong [OF refl]) (simp add: die_returns [OF assms] bit_strings_def set_n_lists)
  then show ?thesis
    by (simp add: die_count_def count_from_def)
qed

lemma die_count_closed:
  assumes "t = 0 \<or> t = 1 \<or> t = 2" "b = 0 \<or> b = 1"
  shows "die_count (t + b * 3 + 1) n
     = (if (t = 0 \<or> t = 2) \<and> n \<ge> 3 \<and> even (n - 3) then 1 else 0)
     + (if t = 1 \<and> n \<ge> 4 \<and> even (n - 4) then 2 else 0)"
proof -
  have "set [b] \<subseteq> {0, 1}" using assms(2) by auto
  from count_from_start [OF this, of t n] show ?thesis
    by (simp add: die_count_eq [OF assms])
qed

lemma die_sums_tb:
  assumes "t = 0 \<or> t = 1 \<or> t = 2" "b = 0 \<or> b = 1"
  shows "(\<lambda>n. real (die_count (t + b * 3 + 1) n) / 2 ^ n) sums (1 / 6)"
proof -
  consider "t = 0 \<or> t = 2" | "t = 1" using assms by auto
  then show ?thesis
  proof cases
    case 1
    then have "real (die_count (t + b * 3 + 1) n) / 2 ^ n
        = (if n \<ge> 3 \<and> even (n - 3) then 1 * (1 / 2) ^ n else 0)" for n
      using die_count_closed [OF assms, of n] by (auto simp: power_divide)
    then show ?thesis
      by (rule measure_sums) (simp add: power3_eq_cube)
  next
    case 2
    then have "real (die_count (t + b * 3 + 1) n) / 2 ^ n
        = (if n \<ge> 4 \<and> even (n - 4) then 2 * (1 / 2) ^ n else 0)" for n
      using die_count_closed [OF assms, of n] by (auto simp: power_divide)
    then show ?thesis
      by (rule measure_sums) (simp add: power4_eq_xxxx)
  qed
qed

lemma u32_face_cases:
  "(f::u32) \<in> {1..6} \<Longrightarrow> f = 1 \<or> f = 2 \<or> f = 3 \<or> f = 4 \<or> f = 5 \<or> f = 6"
proof -
  assume "f \<in> {1..6}"
  then have "1 \<le> unat f \<and> unat f \<le> 6"
    by (simp add: word_le_nat_alt)
  then have "unat f = 1 \<or> unat f = 2 \<or> unat f = 3 \<or> unat f = 4 \<or> unat f = 5 \<or> unat f = 6"
    by linarith
  then show ?thesis
    by (simp add: word_unat_eq_iff)
qed

lemma die_sums:
  assumes "f \<in> {1..6}"
  shows "(\<lambda>n. real (die_count f n) / 2 ^ n) sums (1 / 6)"
proof -
  have "\<exists>t b. (t = 0 \<or> t = 1 \<or> t = 2) \<and> (b = 0 \<or> b = 1) \<and> f = t + b * 3 + 1"
    using u32_face_cases [OF assms]
  proof (elim disjE)
    assume "f = 1" then show ?thesis by (intro exI [of _ 0]) simp
  next
    assume "f = 2" then show ?thesis by (intro exI [of _ 1] exI [of _ 0]) simp
  next
    assume "f = 3" then show ?thesis by (intro exI [of _ 2] exI [of _ 0]) simp
  next
    assume "f = 4" then show ?thesis by (intro exI [of _ 0] exI [of _ 1]) simp
  next
    assume "f = 5" then show ?thesis by (intro exI [of _ 1]) simp
  next
    assume "f = 6" then show ?thesis by (intro exI [of _ 2] exI [of _ 1]) simp
  qed
  then show ?thesis
    using die_sums_tb by blast
qed

lemma ucast_and_1: "(ucast ((x::ulong) AND 1) :: u32) = 0 \<or> (ucast (x AND 1) :: u32) = 1"
  by (cases "odd x") (simp_all add: and_one_eq mod_2_eq_odd)

lemma BBSGetBit_bit: "BBSGetBit ctx = Some (b, ctx') \<Longrightarrow> b = 0 \<or> b = 1"
  using ucast_and_1 [of "mpz_get_ui (mpz_powm_ui2 (zSeed ctx) (zModulus ctx))"]
  by (auto simp: BBSGetBit_def Let_def split: if_splits)

lemma BBSGetTrit_range:
  "BBSGetTrit ctx = Some (t, ctx') \<Longrightarrow> t \<in> {0, 1, 2}"
  using BBSGetTrit_loop_range [of BBSGetBit 0 ctx "(t, ctx')"] by (auto simp: BBSGetTrit_def)

lemma BBSDie_range:
  assumes "BBSDie BBSGetBit ctx = Some (d, ctx')"
  shows "d \<in> {1, 2, 3, 4, 5, 6}"
proof -
  from assms obtain t s1 b where l: "BBSGetTrit_loop BBSGetBit 0 ctx = Some (t, s1)"
    and g: "BBSGetBit s1 = Some (b, ctx')" and d: "d = t + b * 3 + 1"
    unfolding BBSDie_Some by blast
  from BBSGetTrit_loop_range [OF l] have "t = 0 \<or> t = 1 \<or> t = 2" by simp
  moreover from BBSGetBit_bit [OF g] have "b = 0 \<or> b = 1" .
  ultimately show ?thesis
    unfolding d by (elim disjE) simp_all
qed

lemma die_simulation:
  assumes w: "set w \<subseteq> {0, 1}"
    and dr: "draw_bits getbit (length w) src = Some (w, src')"
    and die: "BBSDie next_bit w = Some (d, [])"
  shows "BBSDie getbit src = Some (d, src')"
proof -
  from die obtain t b where r: "returns_on 0 t [b] w" and d: "d = t + b * 3 + 1"
    unfolding BBSDie_Some returns_on_def by (auto simp: next_bit_Some)
  from returns_on_shape [OF w _ r] obtain u where u: "w = u @ [b]" by auto
  from dr u obtain s1 where d1: "draw_bits getbit (length u) src = Some (u, s1)"
    and g: "getbit s1 = Some (b, src')"
    using draw_bits_snoc [of getbit u b src src'] by auto
  have "BBSGetTrit_loop getbit 0 src = Some (t, s1)"
    using trit_simulation [of u "[b]" 0 t getbit src s1] w r d1 u by simp
  with g d show ?thesis
    unfolding BBSDie_Some by blast
qed

lemma RollDice_BBS:
  assumes "BBSCheck ctx = 0"
  shows "RollDice ext RNG_BBS ctx = Some res \<longleftrightarrow>
     (\<exists>d0 c1 d1 c2. BBSDie BBSGetBit ctx = Some (d0, c1) \<and> BBSDie BBSGetBit c1 = Some (d1, c2) \<and>
        res = (0, (d0, d1), RNG_BBS, c2\<lparr>counter_c := counter_c c2 + 2\<rparr>))"
proof (cases "BBSDie BBSGetBit ctx")
  case None
  then have "RollDice_switch ext RNG_BBS ctx = None"
    using assms by (simp add: RollDice_switch_def)
  then have "RollDice ext RNG_BBS ctx = None" by (rule RollDice_None)
  with None show ?thesis by simp
next
  case (Some r0)
  obtain d0 c1 where r0: "r0 = (d0, c1)" by (cases r0)
  show ?thesis
  proof (cases "BBSDie BBSGetBit c1")
    case None
    then have "RollDice_switch ext RNG_BBS ctx = None"
      using assms Some r0 by (simp add: RollDice_switch_def)
    then have "RollDice ext RNG_BBS ctx = None" by (rule RollDice_None)
    with None Some r0 show ?thesis by simp
  next
    case (Some r1)
    obtain d1 c2 where r1: "r1 = (d1, c2)" by (cases r1)
    have sw: "RollDice_switch ext RNG_BBS ctx
        = Some (Break ((d0, d1), c2\<lparr>counter_c := counter_c c2 + 2\<rparr>))"
      using assms \<open>BBSDie BBSGetBit ctx = Some r0\<close> r0 Some r1 by (simp add: RollDice_switch_def)
    have "d0 \<in> {1, 2, 3, 4, 5, 6}" "d1 \<in> {1, 2, 3, 4, 5, 6}"
      using \<open>BBSDie BBSGetBit ctx = Some r0\<close> r0 Some r1 by (auto dest: BBSDie_range)
    then have "\<not> out_of_range (d0, d1)"
      by (auto simp: out_of_range_def)
    with sw have "RollDice ext RNG_BBS ctx
        = Some (0, (d0, d1), RNG_BBS, c2\<lparr>counter_c := counter_c c2 + 2\<rparr>)"
      by (rule RollDice_Break_ok)
    with \<open>BBSDie BBSGetBit ctx = Some r0\<close> r0 Some r1 show ?thesis by auto
  qed
qed

text \<open>
  Claim C2. Under fair bits \<^verbatim>\<open>BBSGetTrit\<close> returns each of 0, 1, 2 with probability
  exactly 1/3: the strings of bits on which it returns \<open>t\<close>, each of length \<open>n\<close>
  weighing \<open>1 / 2 ^ n\<close>, have total weight 1/3. A die is \<open>trit + bit * 3 + 1\<close> with one
  more bit, and each face 1..6 has probability exactly 1/6. On the generator itself a
  trit is one of 0, 1, 2 and a die one of 1..6, and what \<^verbatim>\<open>BBSGetTrit\<close> and the die
  return is what the automaton returns on the bits that \<^verbatim>\<open>BBSGetBit\<close> delivers.
  \<^verbatim>\<open>RollDice\<close> with the BBS generator and a seed that passes \<^verbatim>\<open>BBSCheck\<close> returns
  exactly when two such dice are produced one after the other, and it returns these two
  dice, the generator still BBS and the counter grown by 2.
\<close>

theorem BBSGetTrit_uniform:
  "(\<forall>t \<in> {0, 1, 2}. (\<lambda>n. real (trit_count t n) / 2 ^ n) sums (1 / 3))
   \<and> (\<forall>f \<in> {1..6}. (\<lambda>n. real (die_count f n) / 2 ^ n) sums (1 / 6))
   \<and> (BBSGetTrit ctx = Some (t, ctx') \<longrightarrow> t \<in> {0, 1, 2})
   \<and> (BBSDie BBSGetBit ctx = Some (d, ctx') \<longrightarrow> d \<in> {1, 2, 3, 4, 5, 6})
   \<and> (BBSDie getbit src = Some (d, src') \<longleftrightarrow>
        (\<exists>trit s1 bit. BBSGetTrit_loop getbit 0 src = Some (trit, s1) \<and>
           getbit s1 = Some (bit, src') \<and> d = trit + bit * 3 + 1))
   \<and> (set w \<subseteq> {0, 1} \<and> draw_bits BBSGetBit (length w) ctx = Some (w, ctx') \<and>
        returns_on 0 t [] w \<longrightarrow> BBSGetTrit ctx = Some (t, ctx'))
   \<and> (set w \<subseteq> {0, 1} \<and> draw_bits BBSGetBit (length w) ctx = Some (w, ctx') \<and>
        BBSDie next_bit w = Some (d, []) \<longrightarrow> BBSDie BBSGetBit ctx = Some (d, ctx'))
   \<and> (BBSCheck ctx = 0 \<longrightarrow>
        (RollDice ext RNG_BBS ctx = Some res \<longleftrightarrow>
           (\<exists>d0 c1 d1 c2. BBSDie BBSGetBit ctx = Some (d0, c1) \<and>
              BBSDie BBSGetBit c1 = Some (d1, c2) \<and>
              res = (0, (d0, d1), RNG_BBS, c2\<lparr>counter_c := counter_c c2 + 2\<rparr>))))"
proof (intro conjI ballI impI)
  fix t :: u32 assume "t \<in> {0, 1, 2}"
  then show "(\<lambda>n. real (trit_count t n) / 2 ^ n) sums (1 / 3)" by (rule trit_sums)
next
  fix f :: u32 assume "f \<in> {1..6}"
  then show "(\<lambda>n. real (die_count f n) / 2 ^ n) sums (1 / 6)" by (rule die_sums)
next
  assume "BBSGetTrit ctx = Some (t, ctx')"
  then show "t \<in> {0, 1, 2}" by (rule BBSGetTrit_range)
next
  assume "BBSDie BBSGetBit ctx = Some (d, ctx')"
  then show "d \<in> {1, 2, 3, 4, 5, 6}" by (rule BBSDie_range)
next
  show "BBSDie getbit src = Some (d, src') \<longleftrightarrow>
        (\<exists>trit s1 bit. BBSGetTrit_loop getbit 0 src = Some (trit, s1) \<and>
           getbit s1 = Some (bit, src') \<and> d = trit + bit * 3 + 1)"
    by (rule BBSDie_Some)
next
  assume a: "set w \<subseteq> {0, 1} \<and> draw_bits BBSGetBit (length w) ctx = Some (w, ctx') \<and>
        returns_on 0 t [] w"
  then show "BBSGetTrit ctx = Some (t, ctx')"
    using trit_simulation [of w "[]" 0 t BBSGetBit ctx ctx'] by (simp add: BBSGetTrit_def)
next
  assume a: "set w \<subseteq> {0, 1} \<and> draw_bits BBSGetBit (length w) ctx = Some (w, ctx') \<and>
        BBSDie next_bit w = Some (d, [])"
  then show "BBSDie BBSGetBit ctx = Some (d, ctx')"
    using die_simulation [of w BBSGetBit ctx ctx' d] by simp
next
  assume "BBSCheck ctx = 0"
  then show "RollDice ext RNG_BBS ctx = Some res \<longleftrightarrow>
           (\<exists>d0 c1 d1 c2. BBSDie BBSGetBit ctx = Some (d0, c1) \<and>
              BBSDie BBSGetBit c1 = Some (d1, c2) \<and>
              res = (0, (d0, d1), RNG_BBS, c2\<lparr>counter_c := counter_c c2 + 2\<rparr>))"
    by (rule RollDice_BBS)
qed

theorem BBSGetTrit_uniform_witness:
  "BBSGetTrit (ctx0\<lparr>zModulus := 437, zSeed := 5\<rparr>) = Some (1, ctx0\<lparr>zModulus := 437, zSeed := 384\<rparr>)
   \<and> (\<lambda>n. real (trit_count 1 n) / 2 ^ n) sums (1 / 3)
   \<and> (\<lambda>n. real (die_count 5 n) / 2 ^ n) sums (1 / 6)
   \<and> RollDice scripted RNG_BBS (ctx0\<lparr>zModulus := 437, zSeed := 5\<rparr>)
       = Some (0, (5, 3), RNG_BBS, ctx0\<lparr>zModulus := 437, zSeed := 6, counter_c := 2\<rparr>)"
proof -
  let ?c = "ctx0\<lparr>zModulus := 437, zSeed := 5\<rparr>"
  let ?c' = "ctx0\<lparr>zModulus := 437, zSeed := 384\<rparr>"
  note inst = BBSGetTrit_uniform [of ?c 1 ?c' 0 BBSGetBit ?c ?c' "[1, 0, 0]"]
  have b1: "BBSGetBit ?c = Some (1, ctx0\<lparr>zModulus := 437, zSeed := 25\<rparr>)"
    by (simp add: BBSGetBit_def mpz_powm_ui2_def mpz_get_ui_def ctx0_def)
  have b2: "BBSGetBit (ctx0\<lparr>zModulus := 437, zSeed := 25\<rparr>)
      = Some (0, ctx0\<lparr>zModulus := 437, zSeed := 188\<rparr>)"
    by (simp add: BBSGetBit_def mpz_powm_ui2_def mpz_get_ui_def ctx0_def)
  have b3: "BBSGetBit (ctx0\<lparr>zModulus := 437, zSeed := 188\<rparr>) = Some (0, ?c')"
    by (simp add: BBSGetBit_def mpz_powm_ui2_def mpz_get_ui_def ctx0_def)
  have "draw_bits BBSGetBit (length [1, 0, 0 :: u32]) ?c = Some ([1, 0, 0], ?c')"
    by (simp add: b1 b2 b3)
  moreover have "returns_on 0 1 [] [1, 0, 0]"
    by (simp add: returns_on_Cons)
  ultimately have "BBSGetTrit ?c = Some (1, ?c')"
    using inst by simp
  moreover have "(\<lambda>n. real (trit_count 1 n) / 2 ^ n) sums (1 / 3)"
    using inst by simp
  moreover have "(\<lambda>n. real (die_count 5 n) / 2 ^ n) sums (1 / 6)"
    using inst by simp
  moreover have "RollDice scripted RNG_BBS ?c
       = Some (0, (5, 3), RNG_BBS, ctx0\<lparr>zModulus := 437, zSeed := 6, counter_c := 2\<rparr>)"
  proof -
    have chk: "BBSCheck ?c = 0"
      by (simp add: BBSCheck_def ctx0_def)
    have d0: "BBSDie BBSGetBit ?c = Some (5, ctx0\<lparr>zModulus := 437, zSeed := 187\<rparr>)"
      by code_simp
    have d1: "BBSDie BBSGetBit (ctx0\<lparr>zModulus := 437, zSeed := 187\<rparr>)
        = Some (3, ctx0\<lparr>zModulus := 437, zSeed := 6\<rparr>)"
      by code_simp
    have "\<exists>d0 c1 d1 c2. BBSDie BBSGetBit ?c = Some (d0, c1) \<and>
        BBSDie BBSGetBit c1 = Some (d1, c2) \<and>
        (0, (5, 3), RNG_BBS, ctx0\<lparr>zModulus := 437, zSeed := 6, counter_c := 2\<rparr>)
          = (0, (d0, d1), RNG_BBS, c2\<lparr>counter_c := counter_c c2 + 2\<rparr>)"
      using d0 d1 by (simp add: ctx0_def)
    then show ?thesis
      by (rule BBSGetTrit_uniform [of ?c _ _ _ _ _ _ _ scripted
          "(0, (5, 3), RNG_BBS, ctx0\<lparr>zModulus := 437, zSeed := 6, counter_c := 2\<rparr>)",
          THEN conjunct2, THEN conjunct2, THEN conjunct2, THEN conjunct2, THEN conjunct2,
          THEN conjunct2, THEN conjunct2, THEN mp, OF chk, THEN iffD2])
  qed
  ultimately show ?thesis by blast
qed

subsection \<open>The seed check\<close>

lemma sq_iter_add: "sq_iter m (a + b) z = sq_iter m b (sq_iter m a z)"
  by (induction a arbitrary: z) simp_all

lemma square8_eq: "i \<le> 8 \<Longrightarrow> square8 i z m = sq_iter m (8 - i) z"
proof (induction i z m rule: square8.induct)
  case (1 i z m)
  show ?case
  proof (cases "i < 8")
    case True
    then have "8 - i = Suc (8 - (i + 1))" by simp
    with True 1 show ?thesis by (subst square8.simps) simp
  next
    case False
    with 1(2) show ?thesis by (subst square8.simps) simp
  qed
qed

lemma cycle16_le: "i \<le> 16 \<Longrightarrow> cycle16 i z zc m \<le> 16"
proof (induction i z zc m rule: cycle16.induct)
  case (1 i z zc m)
  then show ?case
    by (subst cycle16.simps) (auto simp: Let_def)
qed

lemma cycle16_16:
  "i \<le> 16 \<Longrightarrow> cycle16 i z zc m = 16 \<longleftrightarrow> (\<forall>j \<in> {1..16 - i}. sq_iter m j z \<noteq> zc)"
proof (induction i z zc m rule: cycle16.induct)
  case (1 i z zc m)
  show ?case
  proof (cases "i < 16")
    case False
    with 1(2) show ?thesis by (subst cycle16.simps) simp
  next
    case True
    have split: "(\<forall>j \<in> {1..16 - i}. P j) \<longleftrightarrow> P 1 \<and> (\<forall>j \<in> {1..16 - (i + 1)}. P (Suc j))" for P
    proof
      assume a: "\<forall>j \<in> {1..16 - i}. P j"
      have "P 1" using a True by simp
      moreover have "P (Suc j)" if "j \<in> {1..16 - (i + 1)}" for j
      proof -
        from that True have "Suc j \<in> {1..16 - i}" by auto
        with a show ?thesis by blast
      qed
      ultimately show "P 1 \<and> (\<forall>j \<in> {1..16 - (i + 1)}. P (Suc j))" by blast
    next
      assume b: "P 1 \<and> (\<forall>j \<in> {1..16 - (i + 1)}. P (Suc j))"
      show "\<forall>j \<in> {1..16 - i}. P j"
      proof
        fix j assume j: "j \<in> {1..16 - i}"
        show "P j"
        proof (cases "j = 1")
          case True
          with b show ?thesis by simp
        next
          case False
          with j obtain j' where "j = Suc j'" "j' \<in> {1..16 - (i + 1)}"
            by (cases j) auto
          with b show ?thesis by blast
        qed
      qed
    qed
    note sp = split [of "\<lambda>j. sq_iter m j z \<noteq> zc"]
    have c: "cycle16 i z zc m =
        (if mpz_powm_ui2 z m = zc then i else cycle16 (i + 1) (mpz_powm_ui2 z m) zc m)"
      using True by (subst cycle16.simps) (simp add: Let_def)
    show ?thesis
    proof (cases "mpz_powm_ui2 z m = zc")
      case eq: True
      with True show ?thesis
        unfolding sp c by simp
    next
      case neq: False
      from 1(1) [OF True refl neq] True
      have "cycle16 (i + 1) (mpz_powm_ui2 z m) zc m = 16 \<longleftrightarrow>
          (\<forall>j \<in> {1..16 - (i + 1)}. sq_iter m j (mpz_powm_ui2 z m) \<noteq> zc)"
        by simp
      with neq show ?thesis
        unfolding sp c by simp
    qed
  qed
qed

lemma attempt_test:
  "(cycle16 0 (square8 0 s m) (square8 0 s m) m = 16) \<longleftrightarrow> \<not> short_cycle m s"
proof -
  have "sq_iter m j (sq_iter m 8 s) = sq_iter m (8 + j) s" for j
    by (rule sq_iter_add [symmetric])
  then show ?thesis
    by (simp add: square8_eq cycle16_16 short_cycle_def)
qed

lemma attempts_step:
  "attempts i ctx =
     (if i < 32
      then (if \<not> short_cycle (zModulus ctx) (zSeed ctx) then (i, ctx)
            else attempts (i + 1) (ctx\<lparr>zSeed := zSeed ctx + 1\<rparr>))
      else (i, ctx))"
  by (subst attempts.simps) (simp add: Let_def attempt_test)

lemma attempts_accepted:
  "i + k < 32 \<Longrightarrow> \<forall>j \<in> {..<k}. short_cycle (zModulus ctx) (zSeed ctx + int j) \<Longrightarrow>
   \<not> short_cycle (zModulus ctx) (zSeed ctx + int k) \<Longrightarrow>
   attempts i ctx = (i + k, ctx\<lparr>zSeed := zSeed ctx + int k\<rparr>)"
proof (induction k arbitrary: i ctx)
  case 0
  then show ?case by (subst attempts_step) simp
next
  case (Suc k)
  let ?c = "ctx\<lparr>zSeed := zSeed ctx + 1\<rparr>"
  have short0: "short_cycle (zModulus ctx) (zSeed ctx)"
    using Suc.prems(2) by (auto dest: bspec [where x = 0])
  have a: "\<forall>j \<in> {..<k}. short_cycle (zModulus ?c) (zSeed ?c + int j)"
  proof
    fix j assume "j \<in> {..<k}"
    then have "Suc j \<in> {..<Suc k}" by simp
    with Suc.prems(2) have "short_cycle (zModulus ctx) (zSeed ctx + int (Suc j))" by blast
    then show "short_cycle (zModulus ?c) (zSeed ?c + int j)" by (simp add: add.assoc)
  qed
  have b: "\<not> short_cycle (zModulus ?c) (zSeed ?c + int k)"
    using Suc.prems(3) by (simp add: add.assoc)
  have c: "(i + 1) + k < 32" using Suc.prems(1) by simp
  have "attempts (i + 1) ?c = (i + 1 + k, ?c\<lparr>zSeed := zSeed ?c + int k\<rparr>)"
    using c a b by (rule Suc.IH)
  with short0 Suc.prems(1) show ?case
    by (subst attempts_step) (simp add: add.assoc)
qed

lemma attempts_exhausted:
  "i + n = 32 \<Longrightarrow> \<forall>j \<in> {..<n}. short_cycle (zModulus ctx) (zSeed ctx + int j) \<Longrightarrow>
   attempts i ctx = (32, ctx\<lparr>zSeed := zSeed ctx + int n\<rparr>)"
proof (induction n arbitrary: i ctx)
  case 0
  then show ?case by (subst attempts_step) simp
next
  case (Suc n)
  let ?c = "ctx\<lparr>zSeed := zSeed ctx + 1\<rparr>"
  have short0: "short_cycle (zModulus ctx) (zSeed ctx)"
    using Suc.prems(2) by (auto dest: bspec [where x = 0])
  have a: "\<forall>j \<in> {..<n}. short_cycle (zModulus ?c) (zSeed ?c + int j)"
  proof
    fix j assume "j \<in> {..<n}"
    then have "Suc j \<in> {..<Suc n}" by simp
    with Suc.prems(2) have "short_cycle (zModulus ctx) (zSeed ctx + int (Suc j))" by blast
    then show "short_cycle (zModulus ?c) (zSeed ?c + int j)" by (simp add: add.assoc)
  qed
  have c: "(i + 1) + n = 32" using Suc.prems(1) by simp
  have "attempts (i + 1) ?c = (32, ?c\<lparr>zSeed := zSeed ?c + int n\<rparr>)"
    using c a by (rule Suc.IH)
  with short0 Suc.prems(1) show ?case
    by (subst attempts_step) (simp add: add.assoc)
qed

lemma BBSInitialSeedFailure_eq: "BBSInitialSeedFailure ctx = (- 1, seed_failure ctx)"
  by (simp add: BBSInitialSeedFailure_def seed_failure_def g_print_def Let_def)

lemma BBSCheck_failure: "BBSCheck (seed_failure ctx) = - 1"
  by (simp add: BBSCheck_def seed_failure_def)

lemma seed_cases: "(\<exists>k. seed_accepted_at m s k) \<or> seed_exhausted m s"
proof (cases "seed_exhausted m s")
  case True
  then show ?thesis by simp
next
  case False
  then have ex: "\<exists>k. k < 32 \<and> \<not> short_cycle m (s + int k)"
    by (auto simp: seed_exhausted_def)
  define k where "k = (LEAST k. k < 32 \<and> \<not> short_cycle m (s + int k))"
  have "k < 32 \<and> \<not> short_cycle m (s + int k)"
    unfolding k_def using ex by (rule LeastI_ex)
  moreover have "short_cycle m (s + int j)" if "j < k" for j
    using not_less_Least [of j "\<lambda>k. k < 32 \<and> \<not> short_cycle m (s + int k)"] that calculation
    unfolding k_def by auto
  ultimately have "seed_accepted_at m s k"
    by (simp add: seed_accepted_at_def)
  then show ?thesis by blast
qed

lemma BBSCheckInitialSeed_nonpositive:
  "zSeed ctx < 1 \<Longrightarrow> BBSCheckInitialSeed ctx = Some (- 1, seed_failure ctx)"
  by (simp add: BBSCheckInitialSeed_def BBSInitialSeedFailure_eq sgn_if)

lemma BBSCheckInitialSeed_accepted:
  assumes "0 < zSeed ctx" "zModulus ctx \<noteq> 0" "seed_accepted_at (zModulus ctx) (zSeed ctx) k"
  shows "BBSCheckInitialSeed ctx = Some (0, ctx\<lparr>zSeed := zSeed ctx + int k\<rparr>)"
proof -
  have "attempts 0 ctx = (0 + k, ctx\<lparr>zSeed := zSeed ctx + int k\<rparr>)"
    using assms(3) by (intro attempts_accepted) (simp_all add: seed_accepted_at_def)
  with assms show ?thesis
    by (simp add: BBSCheckInitialSeed_def seed_accepted_at_def sgn_if)
qed

lemma BBSCheckInitialSeed_exhausted:
  assumes "0 < zSeed ctx" "zModulus ctx \<noteq> 0" "seed_exhausted (zModulus ctx) (zSeed ctx)"
  shows "BBSCheckInitialSeed ctx = Some (- 1, seed_failure (ctx\<lparr>zSeed := zSeed ctx + 32\<rparr>))"
proof -
  have "attempts 0 ctx = (32, ctx\<lparr>zSeed := zSeed ctx + int 32\<rparr>)"
    using assms(3) by (intro attempts_exhausted) (simp_all add: seed_exhausted_def)
  with assms show ?thesis
    by (simp add: BBSCheckInitialSeed_def BBSInitialSeedFailure_eq sgn_if)
qed

lemma BBSCheckInitialSeed_abort:
  "0 < zSeed ctx \<Longrightarrow> zModulus ctx = 0 \<Longrightarrow> BBSCheckInitialSeed ctx = None"
  by (simp add: BBSCheckInitialSeed_def sgn_if)

lemma orbit_nth: "k < n \<Longrightarrow> orbit m z n ! k = sq_iter m k z"
proof (induction k arbitrary: z n)
  case 0
  then show ?case by (cases n) simp_all
next
  case (Suc k)
  then show ?case by (cases n) simp_all
qed

lemma short_cycle_orbit:
  "short_cycle m s \<longleftrightarrow> (\<exists>j \<in> {1..16}. orbit m s 25 ! (8 + j) = orbit m s 25 ! 8)"
  by (simp add: short_cycle_def orbit_nth)

lemma seed_437_7: "seed_accepted_at 437 7 2"
proof -
  have o7: "orbit 437 7 25 = [7, 49, 216, 334, 121, 220, 330, 87, 140, 372, 292, 49, 216, 334, 121, 220, 330, 87, 140, 372, 292, 49, 216, 334, 121]"
    by code_simp
  have o8: "orbit 437 8 25 = [8, 64, 163, 349, 315, 26, 239, 311, 144, 197, 353, 64, 163, 349, 315, 26, 239, 311, 144, 197, 353, 64, 163, 349, 315]"
    by code_simp
  have o9: "orbit 437 9 25 = [9, 81, 6, 36, 422, 225, 370, 119, 177, 302, 308, 35, 351, 404, 215, 340, 232, 73, 85, 233, 101, 150, 213, 358, 123]"
    by code_simp
  have "short_cycle 437 7"
    unfolding short_cycle_orbit o7 by code_simp
  moreover have "short_cycle 437 8"
    unfolding short_cycle_orbit o8 by code_simp
  moreover have "\<not> short_cycle 437 9"
    unfolding short_cycle_orbit o9 by code_simp
  moreover have "{..<2::nat} = {0, 1}"
    by auto
  ultimately show ?thesis
    by (simp add: seed_accepted_at_def)
qed

lemma square_mod_21:
  "mpz_powm_ui2 (mpz_powm_ui2 (mpz_powm_ui2 z 21) 21) 21 = mpz_powm_ui2 z 21"
proof -
  have all: "\<forall>y \<in> set [0..20].
      mpz_powm_ui2 (mpz_powm_ui2 (mpz_powm_ui2 y 21) 21) 21 = mpz_powm_ui2 y 21"
    by code_simp
  have red: "mpz_powm_ui2 z 21 = mpz_powm_ui2 (z mod 21) 21"
    by (simp add: mpz_powm_ui2_def mod_mult_eq)
  have "z mod 21 \<in> set [0..20]"
    by simp
  with all have "mpz_powm_ui2 (mpz_powm_ui2 (mpz_powm_ui2 (z mod 21) 21) 21) 21
      = mpz_powm_ui2 (z mod 21) 21"
    by (rule bspec)
  then show ?thesis
    by (simp only: red)
qed

lemma short_cycle_21: "short_cycle 21 s"
proof -
  have "sq_iter 21 (8 + 2) s = sq_iter 21 8 s"
    by (simp add: eval_nat_numeral square_mod_21)
  then show ?thesis
    unfolding short_cycle_def by (intro bexI [of _ 2]) simp_all
qed

lemma seed_21: "seed_exhausted 21 s"
  by (simp add: seed_exhausted_def short_cycle_21)

text \<open>
  Claim C5. \<^verbatim>\<open>BBSCheckInitialSeed\<close> makes at most 32 attempts. An attempt squares a
  copy of the seed 8 times to the reference point and then up to 16 times more, looking
  for the reference point; if it comes back, the seed is incremented by 1 and the next
  attempt made. The first seed without such a cycle is kept and 0 returned. A seed below
  1, or 32 attempts with a cycle each, give -1 with both messages printed and the seed
  set to \<^verbatim>\<open>zZero\<close> (0 once \<^verbatim>\<open>InitRNGBBS\<close> has run), so that \<^verbatim>\<open>BBSCheck\<close> fails.
\<close>

theorem BBSCheckInitialSeed_attempts:
  "(zSeed ctx < 1 \<longrightarrow> BBSCheckInitialSeed ctx = Some (- 1, seed_failure ctx))
   \<and> (0 < zSeed ctx \<and> zModulus ctx \<noteq> 0 \<and> seed_accepted_at (zModulus ctx) (zSeed ctx) k \<longrightarrow>
        BBSCheckInitialSeed ctx = Some (0, ctx\<lparr>zSeed := zSeed ctx + int k\<rparr>))
   \<and> (0 < zSeed ctx \<and> zModulus ctx \<noteq> 0 \<and> seed_exhausted (zModulus ctx) (zSeed ctx) \<longrightarrow>
        BBSCheckInitialSeed ctx = Some (- 1, seed_failure (ctx\<lparr>zSeed := zSeed ctx + 32\<rparr>)))
   \<and> ((\<exists>k. seed_accepted_at m s k) \<or> seed_exhausted m s)
   \<and> BBSInitialSeedFailure ctx = (- 1, seed_failure ctx)
   \<and> zSeed (seed_failure ctx) = zZero ctx
   \<and> (zZero ctx = 0 \<longrightarrow> zSeed (seed_failure ctx) = 0)
   \<and> BBSCheck (seed_failure ctx) = - 1
   \<and> square8 0 s m = sq_iter m 8 s
   \<and> (cycle16 0 (square8 0 s m) (square8 0 s m) m = 16 \<longleftrightarrow> \<not> short_cycle m s)"
proof (intro conjI impI)
  show "(\<exists>k. seed_accepted_at m s k) \<or> seed_exhausted m s"
    by (rule seed_cases)
  show "cycle16 0 (square8 0 s m) (square8 0 s m) m = 16 \<longleftrightarrow> \<not> short_cycle m s"
    by (rule attempt_test)
  show "square8 0 s m = sq_iter m 8 s"
    by (simp add: square8_eq)
qed (simp_all add: BBSCheckInitialSeed_nonpositive BBSCheckInitialSeed_accepted
      BBSCheckInitialSeed_exhausted BBSInitialSeedFailure_eq BBSCheck_failure,
    simp_all add: seed_failure_def)

theorem BBSCheckInitialSeed_attempts_witness:
  "BBSCheckInitialSeed (ctx0\<lparr>zModulus := 437, zSeed := 7\<rparr>)
     = Some (0, ctx0\<lparr>zModulus := 437, zSeed := 9\<rparr>)
   \<and> BBSCheckInitialSeed (ctx0\<lparr>zModulus := 21, zSeed := 2\<rparr>)
     = Some (- 1, ctx0\<lparr>zModulus := 21, zSeed := 0, out := [InvalidSeedOrModulus, PleaseResetSeed]\<rparr>)
   \<and> BBSCheckInitialSeed (ctx0\<lparr>zModulus := 437, zSeed := - 4\<rparr>)
     = Some (- 1, ctx0\<lparr>zModulus := 437, zSeed := 0, out := [InvalidSeedOrModulus, PleaseResetSeed]\<rparr>)"
proof (intro conjI)
  show "BBSCheckInitialSeed (ctx0\<lparr>zModulus := 437, zSeed := 7\<rparr>)
     = Some (0, ctx0\<lparr>zModulus := 437, zSeed := 9\<rparr>)"
    using BBSCheckInitialSeed_attempts [of "ctx0\<lparr>zModulus := 437, zSeed := 7\<rparr>" 2] seed_437_7
    by (simp add: ctx0_def)
  show "BBSCheckInitialSeed (ctx0\<lparr>zModulus := 21, zSeed := 2\<rparr>)
     = Some (- 1, ctx0\<lparr>zModulus := 21, zSeed := 0, out := [InvalidSeedOrModulus, PleaseResetSeed]\<rparr>)"
    using BBSCheckInitialSeed_attempts [of "ctx0\<lparr>zModulus := 21, zSeed := 2\<rparr>"] seed_21 [of 2]
    by (simp add: ctx0_def seed_failure_def)
  show "BBSCheckInitialSeed (ctx0\<lparr>zModulus := 437, zSeed := - 4\<rparr>)
     = Some (- 1, ctx0\<lparr>zModulus := 437, zSeed := 0, out := [InvalidSeedOrModulus, PleaseResetSeed]\<rparr>)"
    using BBSCheckInitialSeed_attempts [of "ctx0\<lparr>zModulus := 437, zSeed := - 4\<rparr>"]
    by (simp add: ctx0_def seed_failure_def)
qed

subsection \<open>Blum factors\<close>

lemma BBSFindGood_step:
  "BBSFindGood ext x = (if BBSGood ext (x + 1) then Some (x + 1) else BBSFindGood ext (x + 1))"
  by (subst BBSFindGood.simps) (simp add: Let_def)

lemma BBSFindGood_next:
  "next_good ext x y \<Longrightarrow> BBSFindGood ext x = Some y"
proof (induction "nat (y - x)" arbitrary: x)
  case 0
  then show ?case by (simp add: next_good_def)
next
  case (Suc n)
  show ?case
  proof (cases "y = x + 1")
    case True
    with Suc.prems show ?thesis
      by (subst BBSFindGood_step) (simp add: next_good_def)
  next
    case False
    with Suc.prems have lt: "x + 1 < y" by (simp add: next_good_def)
    have ng: "\<not> BBSGood ext (x + 1)"
      using Suc.prems lt by (simp add: next_good_def)
    have "next_good ext (x + 1) y"
      using Suc.prems lt by (auto simp: next_good_def)
    moreover have "n = nat (y - (x + 1))" using Suc.hyps(2) by simp
    ultimately have "BBSFindGood ext (x + 1) = Some y" by (rule Suc.hyps(1) [rotated])
    with ng show ?thesis
      by (subst BBSFindGood_step) simp
  qed
qed

lemma BBSFindGood_induct [consumes 1]:
  assumes "BBSFindGood ext x = Some y"
    and "\<And>find ext x y.
      (\<And>e b y. find e b = Some y \<Longrightarrow> P e b y) \<Longrightarrow>
      (let x' = x + 1 in if \<not> BBSGood ext x' then find ext x' else Some x') = Some y \<Longrightarrow>
      P ext x y"
  shows "P ext x y"
proof -
  have "(case (ext, x) of (e, b) \<Rightarrow> P e b) y"
  proof (rule BBSFindGood.raw_induct [where P = P])
    show "(case (ext, x) of (e, b) \<Rightarrow> BBSFindGood e b) = Some y"
      using assms(1) by simp
  next
    fix find e b y'
    assume "\<And>x b y. find x b = Some y \<Longrightarrow> P x b y"
      and "(let x' = b + 1 in if \<not> BBSGood e x' then find e x' else Some x') = Some y'"
    then show "P e b y'" by (rule assms(2))
  qed
  then show ?thesis by simp
qed

lemma BBSFindGood_Some:
  "BBSFindGood ext x = Some y \<Longrightarrow> next_good ext x y"
proof (induction rule: BBSFindGood_induct)
  case (1 find ext x y)
  show ?case
  proof (cases "BBSGood ext (x + 1)")
    case True
    with 1(2) have "y = x + 1" by (simp add: Let_def)
    with True show ?thesis by (simp add: next_good_def)
  next
    case False
    with 1(2) have "find ext (x + 1) = Some y" by (simp add: Let_def)
    from 1(1) [OF this] have n: "next_good ext (x + 1) y" .
    have "\<not> BBSGood ext z" if "z \<in> set [x + 1..y - 1]" for z
    proof (cases "z = x + 1")
      case True
      with False show ?thesis by simp
    next
      case ne: False
      with that have "z \<in> set [x + 1 + 1..y - 1]" by auto
      with n show ?thesis by (simp add: next_good_def)
    qed
    with n show ?thesis
      by (simp add: next_good_def)
  qed
qed

lemma next_good_exists:
  assumes "x < y" "BBSGood ext y"
  shows "\<exists>y'. next_good ext x y'"
proof -
  define k where "k = (LEAST k. BBSGood ext (x + 1 + int k))"
  have ex: "BBSGood ext (x + 1 + int (nat (y - x - 1)))"
    using assms by simp
  have g: "BBSGood ext (x + 1 + int k)"
    unfolding k_def using ex by (rule LeastI)
  have "\<not> BBSGood ext z" if "z \<in> set [x + 1..x + 1 + int k - 1]" for z
  proof -
    from that have "nat (z - x - 1) < k" "z = x + 1 + int (nat (z - x - 1))" by auto
    then show ?thesis
      using not_less_Least [of "nat (z - x - 1)" "\<lambda>k. BBSGood ext (x + 1 + int k)"]
      unfolding k_def by metis
  qed
  with g have "next_good ext x (x + 1 + int k)"
    by (simp add: next_good_def)
  then show ?thesis ..
qed

lemma word_and_3: "(word_of_int y AND 3 :: ulong) = 3 \<longleftrightarrow> y mod 4 = 3"
proof -
  have m: "(3::ulong) = mask 2"
    by (simp add: mask_eq_exp_minus_1)
  have "(word_of_int y AND mask 2 :: ulong) = word_of_int (take_bit 2 y)"
    by (simp add: and_mask_wi')
  then have e: "(word_of_int y AND 3 :: ulong) = word_of_int (y mod 4)"
    by (simp add: m [symmetric] take_bit_int_def)
  have "0 \<le> y mod 4" "y mod 4 < 4" by simp_all
  then have "y mod 4 = 0 \<or> y mod 4 = 1 \<or> y mod 4 = 2 \<or> y mod 4 = 3"
    by linarith
  then show ?thesis
    unfolding e by (elim disjE) simp_all
qed

lemma mpz_get_ui_mod4: "(mpz_get_ui x AND 3) = 3 \<longleftrightarrow> \<bar>x\<bar> mod 4 = 3"
  by (simp add: mpz_get_ui_def word_and_3)

lemma mult_mod4_3: "(a::nat) * b mod 4 = 3 \<Longrightarrow> a < 4 \<Longrightarrow> b < 4 \<Longrightarrow> a = 3 \<or> b = 3"
proof -
  assume p: "a * b mod 4 = 3" and "a < 4" "b < 4"
  then have "a = 0 \<or> a = 1 \<or> a = 2 \<or> a = 3" "b = 0 \<or> b = 1 \<or> b = 2 \<or> b = 3"
    by linarith+
  with p show ?thesis
    by (elim disjE) simp_all
qed

lemma four_times_pred_mod4: "1 \<le> (f::nat) \<Longrightarrow> (4 * f - 1) mod 4 = 3"
proof -
  assume "1 \<le> f"
  then obtain g where "f = Suc g" by (cases f) simp_all
  then have "4 * f - 1 = 4 * g + 3" by simp
  then show ?thesis by simp
qed

lemma dvd_both_one: "(p::nat) dvd 4 * f \<Longrightarrow> p dvd 4 * f - 1 \<Longrightarrow> 1 \<le> f \<Longrightarrow> p dvd 1"
proof -
  assume a: "p dvd 4 * f" "p dvd 4 * f - 1" "1 \<le> f"
  have "p dvd 4 * f - (4 * f - 1)" using a(1,2) by (rule dvd_diff_nat)
  moreover have "4 * f - (4 * f - 1) = 1" using a(3) by simp
  ultimately show ?thesis by simp
qed

lemma is_prime_nat:
  "is_prime (int p) \<longleftrightarrow> 2 \<le> p \<and> (\<forall>d. 2 \<le> d \<and> d < p \<longrightarrow> \<not> d dvd p)"
proof -
  have "(\<forall>d \<in> set [2..int p - 1]. \<not> d dvd int p) \<longleftrightarrow> (\<forall>d. 2 \<le> d \<and> d < p \<longrightarrow> \<not> d dvd p)"
  proof
    assume a: "\<forall>d \<in> set [2..int p - 1]. \<not> d dvd int p"
    show "\<forall>d. 2 \<le> d \<and> d < p \<longrightarrow> \<not> d dvd p"
    proof (intro allI impI)
      fix d assume "2 \<le> d \<and> d < p"
      then have "int d \<in> set [2..int p - 1]" by simp
      with a have "\<not> int d dvd int p" by blast
      then show "\<not> d dvd p" by simp
    qed
  next
    assume b: "\<forall>d. 2 \<le> d \<and> d < p \<longrightarrow> \<not> d dvd p"
    show "\<forall>d \<in> set [2..int p - 1]. \<not> d dvd int p"
    proof
      fix d assume "d \<in> set [2..int p - 1]"
      then have "2 \<le> nat d \<and> nat d < p" "d = int (nat d)" by auto
      with b have "\<not> nat d dvd p" by blast
      with \<open>d = int (nat d)\<close> show "\<not> d dvd int p"
        by (metis int_dvd_int_iff)
    qed
  qed
  then show ?thesis
    by (simp add: is_prime_def)
qed

lemma prime_divisor_3mod4:
  fixes k :: nat
  shows "k mod 4 = 3 \<Longrightarrow> \<exists>p. is_prime (int p) \<and> p dvd k \<and> p mod 4 = 3"
proof (induction k rule: less_induct)
  case (less k)
  show ?case
  proof (cases "is_prime (int k)")
    case True
    with less.prems show ?thesis by (intro exI [of _ k]) simp
  next
    case False
    have "2 \<le> k" using less.prems by presburger
    with False obtain d where d: "2 \<le> d" "d < k" "d dvd k"
      unfolding is_prime_nat by blast
    then obtain e where e: "k = d * e" by (elim dvdE)
    with d have e2: "e < k" "e dvd k"
      by (auto simp: nat_mult_less_cancel_disj intro: ccontr)
    have "(d mod 4) * (e mod 4) mod 4 = 3"
      using less.prems e by (simp add: mod_mult_eq)
    moreover have "d mod 4 < 4" "e mod 4 < 4" by simp_all
    ultimately have "d mod 4 = 3 \<or> e mod 4 = 3"
      by (rule mult_mod4_3)
    then show ?thesis
    proof
      assume "d mod 4 = 3"
      from less.IH [OF d(2) this] obtain p where "is_prime (int p)" "p dvd d" "p mod 4 = 3" by blast
      with d(3) show ?thesis by (meson dvd_trans)
    next
      assume "e mod 4 = 3"
      from less.IH [OF e2(1) this] obtain p where "is_prime (int p)" "p dvd e" "p mod 4 = 3" by blast
      with e2(2) show ?thesis by (meson dvd_trans)
    qed
  qed
qed

lemma primes_3mod4_unbounded:
  fixes N :: nat
  shows "\<exists>p. N < p \<and> is_prime (int p) \<and> p mod 4 = 3"
proof -
  let ?n = "4 * fact N - 1 :: nat"
  have f: "1 \<le> (fact N :: nat)" by (simp add: Suc_leI)
  then have "?n mod 4 = 3"
    by (rule four_times_pred_mod4)
  from prime_divisor_3mod4 [OF this] obtain p where
    p: "is_prime (int p)" "p dvd ?n" "p mod 4 = 3" by blast
  have "N < p"
  proof (rule ccontr)
    assume "\<not> N < p"
    moreover have "1 \<le> p" using p(3) by presburger
    ultimately have "p dvd fact N" by (simp add: dvd_fact)
    then have "p dvd 4 * fact N" by simp
    with p(2) f have "p dvd 1"
      by (intro dvd_both_one [of p "fact N"])
    with p(1) show False by (simp add: is_prime_nat)
  qed
  with p show ?thesis by blast
qed

lemma good_unbounded:
  assumes "accepts_primes ext"
  shows "\<exists>y. x < y \<and> BBSGood ext y"
proof -
  obtain p where p: "nat (max x 19) < p" "is_prime (int p)" "p mod 4 = 3"
    using primes_3mod4_unbounded by blast
  have "int p mod 4 = 3"
    using p(3) by (metis of_nat_mod of_nat_numeral)
  moreover have "19 \<le> int p" "x < int p" using p(1) by simp_all
  moreover have "mpz_probab_prime_p ext (int p) 10 \<noteq> 0"
    using assms p(2) by (simp add: accepts_primes_def)
  ultimately have "BBSGood ext (int p)"
    by (simp add: BBSGood_def mpz_get_ui_mod4)
  with \<open>x < int p\<close> show ?thesis by blast
qed

lemma BBSFindGood_total:
  assumes "accepts_primes ext"
  shows "\<exists>y. BBSFindGood ext x = Some y \<and> next_good ext x y"
proof -
  from good_unbounded [OF assms] obtain y0 where "x < y0" "BBSGood ext y0" by blast
  then obtain y where "next_good ext x y" using next_good_exists by blast
  then show ?thesis using BBSFindGood_next by blast
qed

lemma next_good_props: "next_good ext x y \<Longrightarrow> x < y \<and> BBSGood ext y"
  by (simp add: next_good_def)

lemma InitRNGBBSFactors_good:
  assumes s0: "mpz_set_str ext s0 = Some p" and p: "0 < p"
    and s1: "mpz_set_str ext s1 = Some q"
    and acc: "accepts_primes ext"
  shows "\<exists>p' q' msgs.
      InitRNGBBSFactors ext (Some s0) (Some s1) ctx
        = Some (0, (InitRNGBBS (ctx\<lparr>out := out ctx @ msgs\<rparr>))\<lparr>zModulus := p' * q'\<rparr>)
      \<and> BBSGood ext p' \<and> BBSGood ext q' \<and> p' \<noteq> q'
      \<and> (if BBSGood ext p then p' = p else next_good ext p p')
      \<and> (if BBSGood ext q \<and> q \<noteq> p' then q' = q
          else (\<exists>q1. next_good ext q q1 \<and> (if q1 = p' then next_good ext q1 q' else q' = q1)))
      \<and> msgs = (if BBSGood ext p then [] else [InvalidBlumFactor s0 p'])
             @ (if BBSGood ext q \<and> q \<noteq> p' then [] else [InvalidBlumFactor s1 q'])"
proof -
  obtain p' where p': "if BBSGood ext p then p' = p else next_good ext p p'"
    and fp: "\<not> BBSGood ext p \<Longrightarrow> BBSFindGood ext p = Some p'"
    using BBSFindGood_total [OF acc, of p] by (cases "BBSGood ext p") auto
  have gp: "BBSGood ext p'"
    using p' next_good_props by (auto split: if_splits)
  obtain q1 where q1: "next_good ext q q1" "BBSFindGood ext q = Some q1"
    using BBSFindGood_total [OF acc, of q] by blast
  obtain q2 where q2: "next_good ext q1 q2" "BBSFindGood ext q1 = Some q2"
    using BBSFindGood_total [OF acc, of q1] by blast
  define q' where "q' = (if BBSGood ext q \<and> q \<noteq> p' then q else if q1 = p' then q2 else q1)"
  define msgs where "msgs = (if BBSGood ext p then [] else [InvalidBlumFactor s0 p'])
             @ (if BBSGood ext q \<and> q \<noteq> p' then [] else [InvalidBlumFactor s1 q'])"
  have res: "InitRNGBBSFactors ext (Some s0) (Some s1) ctx
        = Some (0, (InitRNGBBS (ctx\<lparr>out := out ctx @ msgs\<rparr>))\<lparr>zModulus := p' * q'\<rparr>)"
    using s0 p s1 p' fp q1(2) q2(2)
    by (auto simp: InitRNGBBSFactors_def g_print_def q'_def msgs_def)
  have gq: "BBSGood ext q'"
    using q1(1) q2(1) next_good_props unfolding q'_def by auto
  have ne: "p' \<noteq> q'"
    using q2(1) next_good_props [OF q2(1)] unfolding q'_def by auto
  have qq: "if BBSGood ext q \<and> q \<noteq> p' then q' = q
          else (\<exists>q1. next_good ext q q1 \<and> (if q1 = p' then next_good ext q1 q' else q' = q1))"
    using q1(1) q2(1) unfolding q'_def by auto
  show ?thesis
    using res gp gq ne p' qq msgs_def by blast
qed

lemma InitRNGBBSFactors_first_not_positive:
  "mpz_set_str ext s0 = Some p \<Longrightarrow> p < 1 \<Longrightarrow>
     InitRNGBBSFactors ext (Some s0) sz1 ctx = Some (- 1, ctx)"
  by (cases sz1) (simp_all add: InitRNGBBSFactors_def sgn_if)

lemma InitRNGBBSFactors_no_error:
  assumes "mpz_set_str ext s0 = Some p" "0 < p" "mpz_set_str ext s1 = Some q"
  shows "InitRNGBBSFactors ext (Some s0) (Some s1) ctx \<noteq> Some (- 1, c)"
  using assms
  by (auto simp: InitRNGBBSFactors_def bind_eq_Some_conv split: if_splits)

lemma accepts_primes_scripted: "accepts_primes scripted"
  by (simp add: accepts_primes_def scripted_def)

lemma scripted_parse:
  "mpz_set_str scripted ''4'' = Some 4" "mpz_set_str scripted ''9'' = Some 9"
  "mpz_set_str scripted ''19'' = Some 19" "mpz_set_str scripted ''-5'' = Some (- 5)"
  by (simp_all add: scripted_def dec_parse_def)

lemma scripted_next_good:
  "next_good scripted 4 19" "next_good scripted 9 19" "next_good scripted 19 23"
  "next_good scripted (- 5) 19"
  by code_simp+

lemma scripted_good:
  "BBSGood scripted 19" "\<not> BBSGood scripted 4" "\<not> BBSGood scripted 9" "\<not> BBSGood scripted (- 5)"
  by code_simp+

lemma scripted_find:
  "BBSFindGood scripted 4 = Some 19" "BBSFindGood scripted 9 = Some 19"
  "BBSFindGood scripted 19 = Some 23" "BBSFindGood scripted (- 5) = Some 19"
  by (rule BBSFindGood_next, rule scripted_next_good)+

text \<open>
  Claim C4, as the code has it. For parsable positive factors, and a primality test
  that accepts the primes, \<^verbatim>\<open>InitRNGBBSFactors\<close> returns 0 and sets the modulus to the
  product \<open>p' * q'\<close> of two distinct good factors. The first factor is kept when it is
  good and is otherwise replaced by the smallest good integer above it. The second
  factor is kept when it is good and differs from \<open>p'\<close>; otherwise it is replaced by the
  smallest good integer above it or, when that is \<open>p'\<close>, by the smallest good integer
  above \<open>p'\<close>. Each replacement is reported with the input string and the new factor.
\<close>

theorem InitRNGBBSFactors_modulus:
  "mpz_set_str ext s0 = Some p \<and> 0 < p \<and> mpz_set_str ext s1 = Some q \<and> 0 < q \<and>
   accepts_primes ext \<longrightarrow>
   (\<exists>p' q' msgs.
      InitRNGBBSFactors ext (Some s0) (Some s1) ctx
        = Some (0, (InitRNGBBS (ctx\<lparr>out := out ctx @ msgs\<rparr>))\<lparr>zModulus := p' * q'\<rparr>)
      \<and> BBSGood ext p' \<and> BBSGood ext q' \<and> p' \<noteq> q'
      \<and> (if BBSGood ext p then p' = p else next_good ext p p')
      \<and> (if BBSGood ext q \<and> q \<noteq> p' then q' = q
          else (\<exists>q1. next_good ext q q1 \<and> (if q1 = p' then next_good ext q1 q' else q' = q1)))
      \<and> msgs = (if BBSGood ext p then [] else [InvalidBlumFactor s0 p'])
             @ (if BBSGood ext q \<and> q \<noteq> p' then [] else [InvalidBlumFactor s1 q']))"
  using InitRNGBBSFactors_good [of ext s0 p s1 q ctx] by blast

theorem InitRNGBBSFactors_modulus_witness:
  "\<exists>p' q' msgs.
      InitRNGBBSFactors scripted (Some ''4'') (Some ''9'') ctx0
        = Some (0, (InitRNGBBS (ctx0\<lparr>out := out ctx0 @ msgs\<rparr>))\<lparr>zModulus := p' * q'\<rparr>)
      \<and> BBSGood scripted p' \<and> BBSGood scripted q' \<and> p' \<noteq> q'
      \<and> next_good scripted 4 p'
      \<and> (\<exists>q1. next_good scripted 9 q1 \<and> (if q1 = p' then next_good scripted q1 q' else q' = q1))
      \<and> msgs = [InvalidBlumFactor ''4'' p', InvalidBlumFactor ''9'' q']"
  using InitRNGBBSFactors_modulus [of scripted "''4''" 4 "''9''" 9 ctx0]
  by (simp add: scripted_parse accepts_primes_scripted scripted_good)

text \<open>
  The second factor 9 is bad and the smallest good integer above it is 19, the new first
  factor: the code takes 23. A second factor 19, good but equal to the first, is not
  kept either.
\<close>

theorem InitRNGBBSFactors_not_smallest:
  "InitRNGBBSFactors scripted (Some ''4'') (Some ''9'') ctx0
     = Some (0, ctx0\<lparr>zModulus := 19 * 23, zOne := 1, fZInit := True,
                    out := [InvalidBlumFactor ''4'' 19, InvalidBlumFactor ''9'' 23]\<rparr>)
   \<and> \<not> BBSGood scripted 9 \<and> next_good scripted 9 19
   \<and> InitRNGBBSFactors scripted (Some ''19'') (Some ''19'') ctx0
     = Some (0, ctx0\<lparr>zModulus := 19 * 23, zOne := 1, fZInit := True,
                    out := [InvalidBlumFactor ''19'' 23]\<rparr>)
   \<and> BBSGood scripted 19"
  by (simp add: InitRNGBBSFactors_def scripted_parse scripted_good scripted_find
      scripted_next_good g_print_def InitRNGBBS_def ctx0_def)

text \<open>
  Claim C10. After parsing the second factor the code tests the sign of the first one
  again. A call whose first factor parses to a number below 1 returns -1 and leaves the
  context as it was. A call with a positive first factor and a negative second one
  never returns -1: with a primality test that accepts the primes it returns 0 and sets
  a positive modulus.
\<close>

theorem InitRNGBBSFactors_sign_test:
  "(mpz_set_str ext s0 = Some p \<and> p < 1 \<longrightarrow>
      InitRNGBBSFactors ext (Some s0) sz1 ctx = Some (- 1, ctx))
   \<and> (mpz_set_str ext s0 = Some p \<and> 0 < p \<and> mpz_set_str ext s1 = Some q \<and> q < 0 \<longrightarrow>
        (\<forall>c. InitRNGBBSFactors ext (Some s0) (Some s1) ctx \<noteq> Some (- 1, c)) \<and>
        (accepts_primes ext \<longrightarrow>
           (\<exists>c. InitRNGBBSFactors ext (Some s0) (Some s1) ctx = Some (0, c) \<and> 0 < zModulus c)))"
proof (intro conjI impI allI)
  assume "mpz_set_str ext s0 = Some p \<and> p < 1"
  then show "InitRNGBBSFactors ext (Some s0) sz1 ctx = Some (- 1, ctx)"
    by (simp add: InitRNGBBSFactors_first_not_positive)
next
  fix c
  assume "mpz_set_str ext s0 = Some p \<and> 0 < p \<and> mpz_set_str ext s1 = Some q \<and> q < 0"
  then show "InitRNGBBSFactors ext (Some s0) (Some s1) ctx \<noteq> Some (- 1, c)"
    by (intro InitRNGBBSFactors_no_error [of ext s0 p s1 q]) simp_all
next
  assume a: "mpz_set_str ext s0 = Some p \<and> 0 < p \<and> mpz_set_str ext s1 = Some q \<and> q < 0"
    and acc: "accepts_primes ext"
  from a acc InitRNGBBSFactors_good [of ext s0 p s1 q ctx] obtain p' q' msgs where
    r: "InitRNGBBSFactors ext (Some s0) (Some s1) ctx
        = Some (0, (InitRNGBBS (ctx\<lparr>out := out ctx @ msgs\<rparr>))\<lparr>zModulus := p' * q'\<rparr>)"
    and g: "BBSGood ext p'" "BBSGood ext q'"
    by blast
  from g have "0 < p' * q'"
    by (simp add: BBSGood_def)
  with r show "\<exists>c. InitRNGBBSFactors ext (Some s0) (Some s1) ctx = Some (0, c) \<and> 0 < zModulus c"
    by simp
qed

theorem InitRNGBBSFactors_sign_test_witness:
  "InitRNGBBSFactors scripted (Some ''-5'') (Some ''19'') ctx0 = Some (- 1, ctx0)
   \<and> InitRNGBBSFactors scripted (Some ''19'') (Some ''-5'') ctx0
     = Some (0, ctx0\<lparr>zModulus := 19 * 23, zOne := 1, fZInit := True,
                    out := [InvalidBlumFactor ''-5'' 23]\<rparr>)"
proof
  show "InitRNGBBSFactors scripted (Some ''-5'') (Some ''19'') ctx0 = Some (- 1, ctx0)"
    using InitRNGBBSFactors_sign_test [of scripted "''-5''" "- 5" "Some ''19''" ctx0]
    by (simp add: scripted_parse)
  have "\<exists>c. InitRNGBBSFactors scripted (Some ''19'') (Some ''-5'') ctx0 = Some (0, c)"
    using InitRNGBBSFactors_sign_test [of scripted "''19''" 19 _ _ "''-5''" "- 5"]
    by (simp add: scripted_parse accepts_primes_scripted) blast
  then show "InitRNGBBSFactors scripted (Some ''19'') (Some ''-5'') ctx0
     = Some (0, ctx0\<lparr>zModulus := 19 * 23, zOne := 1, fZInit := True,
                    out := [InvalidBlumFactor ''-5'' 23]\<rparr>)"
    by (simp add: InitRNGBBSFactors_def scripted_parse scripted_good scripted_find
      g_print_def InitRNGBBS_def ctx0_def)
qed

subsection \<open>Dice files\<close>

lemma uglyloop_error:
  "f_err f \<Longrightarrow> \<not> f_eof f \<Longrightarrow>
     uglyloop f ctx = Some (- 1, (g_print (DiceFileError (szDiceFilename ctx)) ctx)\<lparr>fDice := Some f\<rparr>)"
  by (subst uglyloop.simps) (simp add: fread1_def feof_def)

lemma uglyloop_byte:
  assumes "\<not> f_err f" "\<not> f_eof f" "f_pos f < length (f_bytes f)"
  shows "uglyloop f ctx =
     (if is_face (f_bytes f ! f_pos f)
      then Some (face_of (f_bytes f ! f_pos f), ctx\<lparr>fDice := Some (f\<lparr>f_pos := f_pos f + 1\<rparr>)\<rparr>)
      else uglyloop (f\<lparr>f_pos := f_pos f + 1\<rparr>) (ctx\<lparr>fDice := Some (f\<lparr>f_pos := f_pos f + 1\<rparr>)\<rparr>))"
  using assms
  by (subst uglyloop.simps) (simp add: fread1_def feof_def is_face_def face_of_def)

lemma uglyloop_eof:
  assumes "\<not> f_err f" "\<not> f_eof f" "length (f_bytes f) \<le> f_pos f"
  shows "uglyloop f ctx =
     uglyloop (f\<lparr>f_pos := 0\<rparr>)
       (ctx\<lparr>out := out ctx @ [RewindingDiceFile (szDiceFilename ctx)], fDice := Some (f\<lparr>f_pos := 0\<rparr>)\<rparr>)"
proof -
  have e: "f\<lparr>f_pos := 0, f_eof := False\<rparr> = f\<lparr>f_pos := 0\<rparr>"
    using assms(2) by (intro dicefile.equality) simp_all
  have "uglyloop f ctx =
     uglyloop (f\<lparr>f_pos := 0, f_eof := False\<rparr>)
       (ctx\<lparr>out := out ctx @ [RewindingDiceFile (szDiceFilename ctx)],
            fDice := Some (f\<lparr>f_pos := 0, f_eof := False\<rparr>)\<rparr>)"
    using assms
    by (subst uglyloop.simps) (simp add: fread1_def feof_def fseek0_def g_print_def)
  then show ?thesis
    unfolding e .
qed

lemma uglyloop_scan:
  "\<not> f_err f \<Longrightarrow> \<not> f_eof f \<Longrightarrow> f_pos f \<le> length (f_bytes f) \<Longrightarrow>
   next_face (drop (f_pos f) (f_bytes f)) = Some (d, k) \<Longrightarrow>
   uglyloop f ctx = Some (d, ctx\<lparr>fDice := Some (f\<lparr>f_pos := f_pos f + k\<rparr>)\<rparr>)"
proof (induction "length (f_bytes f) - f_pos f" arbitrary: f ctx k)
  case 0
  then show ?case by (simp add: next_face.simps)
next
  case (Suc n)
  let ?b = "f_bytes f ! f_pos f"
  let ?f = "f\<lparr>f_pos := f_pos f + 1\<rparr>"
  have lt: "f_pos f < length (f_bytes f)" using Suc.hyps(2) by simp
  then have dr: "drop (f_pos f) (f_bytes f) = ?b # drop (f_pos f + 1) (f_bytes f)"
    by (simp add: Cons_nth_drop_Suc)
  show ?case
  proof (cases "is_face ?b")
    case True
    with Suc.prems(4) have "d = face_of ?b" "k = 1"
      by (simp_all add: dr next_face.simps)
    with True show ?thesis
      by (simp add: uglyloop_byte [OF Suc.prems(1,2) lt])
  next
    case False
    with Suc.prems(4) obtain k' where k': "next_face (drop (f_pos ?f) (f_bytes ?f)) = Some (d, k')"
      and k: "k = Suc k'"
      by (auto simp: dr next_face.simps)
    have "uglyloop ?f (ctx\<lparr>fDice := Some ?f\<rparr>)
        = Some (d, ctx\<lparr>fDice := Some ?f\<rparr>\<lparr>fDice := Some (?f\<lparr>f_pos := f_pos ?f + k'\<rparr>)\<rparr>)"
      using Suc.hyps(2) Suc.prems(1,2) lt k'
      by (intro Suc.hyps(1)) simp_all
    with False k show ?thesis
      by (simp add: uglyloop_byte [OF Suc.prems(1,2) lt])
  qed
qed

lemma uglyloop_rewind:
  "\<not> f_err f \<Longrightarrow> \<not> f_eof f \<Longrightarrow> f_pos f \<le> length (f_bytes f) \<Longrightarrow>
   next_face (drop (f_pos f) (f_bytes f)) = None \<Longrightarrow>
   uglyloop f ctx =
     uglyloop (f\<lparr>f_pos := 0\<rparr>)
       (ctx\<lparr>out := out ctx @ [RewindingDiceFile (szDiceFilename ctx)], fDice := Some (f\<lparr>f_pos := 0\<rparr>)\<rparr>)"
proof (induction "length (f_bytes f) - f_pos f" arbitrary: f ctx)
  case 0
  then show ?case by (intro uglyloop_eof) simp_all
next
  case (Suc n)
  let ?b = "f_bytes f ! f_pos f"
  let ?f = "f\<lparr>f_pos := f_pos f + 1\<rparr>"
  have lt: "f_pos f < length (f_bytes f)" using Suc.hyps(2) by simp
  then have dr: "drop (f_pos f) (f_bytes f) = ?b # drop (f_pos f + 1) (f_bytes f)"
    by (simp add: Cons_nth_drop_Suc)
  from Suc.prems(4) have nf: "\<not> is_face ?b" and none: "next_face (drop (f_pos ?f) (f_bytes ?f)) = None"
    by (auto simp: dr next_face.simps split: if_splits)
  have "uglyloop ?f (ctx\<lparr>fDice := Some ?f\<rparr>) =
     uglyloop (?f\<lparr>f_pos := 0\<rparr>)
       (ctx\<lparr>fDice := Some ?f\<rparr>\<lparr>out := out (ctx\<lparr>fDice := Some ?f\<rparr>)
            @ [RewindingDiceFile (szDiceFilename (ctx\<lparr>fDice := Some ?f\<rparr>))],
          fDice := Some (?f\<lparr>f_pos := 0\<rparr>)\<rparr>)"
    using Suc.hyps(2) Suc.prems(1,2) lt none
    by (intro Suc.hyps(1)) simp_all
  with nf show ?case
    by (simp add: uglyloop_byte [OF Suc.prems(1,2) lt])
qed

lemma ReadDiceFile_ahead:
  assumes "fDice ctx = Some f" "\<not> f_err f" "\<not> f_eof f" "f_pos f \<le> length (f_bytes f)"
    and "next_face (drop (f_pos f) (f_bytes f)) = Some (d, k)"
  shows "ReadDiceFile ctx = Some (d, ctx\<lparr>fDice := Some (f\<lparr>f_pos := f_pos f + k\<rparr>)\<rparr>)"
  using assms by (simp add: ReadDiceFile_def uglyloop_scan)

lemma ReadDiceFile_rewound:
  assumes "fDice ctx = Some f" "\<not> f_err f" "\<not> f_eof f" "f_pos f \<le> length (f_bytes f)"
    and "next_face (drop (f_pos f) (f_bytes f)) = None"
    and "next_face (f_bytes f) = Some (d, k)"
  shows "ReadDiceFile ctx =
     Some (d, ctx\<lparr>out := out ctx @ [RewindingDiceFile (szDiceFilename ctx)],
                  fDice := Some (f\<lparr>f_pos := k\<rparr>)\<rparr>)"
proof -
  let ?f = "f\<lparr>f_pos := 0\<rparr>"
  let ?c = "ctx\<lparr>out := out ctx @ [RewindingDiceFile (szDiceFilename ctx)], fDice := Some ?f\<rparr>"
  have "uglyloop f ctx = uglyloop ?f ?c"
    using assms(2-5) by (rule uglyloop_rewind)
  also have "\<dots> = Some (d, ?c\<lparr>fDice := Some (?f\<lparr>f_pos := f_pos ?f + k\<rparr>)\<rparr>)"
    using assms(2,3,6) by (intro uglyloop_scan) simp_all
  finally show ?thesis
    using assms(1) by (simp add: ReadDiceFile_def)
qed

lemma ReadDiceFile_closed: "fDice ctx = None \<Longrightarrow> ReadDiceFile ctx = Some (- 1, ctx)"
  by (simp add: ReadDiceFile_def)

lemma ReadDiceFile_error:
  assumes "fDice ctx = Some f" "f_err f" "\<not> f_eof f"
  shows "ReadDiceFile ctx = Some (- 1, g_print (DiceFileError (szDiceFilename ctx)) ctx)"
proof -
  have "(g_print (DiceFileError (szDiceFilename ctx)) ctx)\<lparr>fDice := Some f\<rparr>
      = g_print (DiceFileError (szDiceFilename ctx)) ctx"
    using assms(1) by (simp add: g_print_def)
  with assms show ?thesis
    by (simp add: ReadDiceFile_def uglyloop_error)
qed

lemma is_face_cases:
  "is_face b \<longleftrightarrow> b = 0x31 \<or> b = 0x32 \<or> b = 0x33 \<or> b = 0x34 \<or> b = 0x35 \<or> b = 0x36"
proof
  assume "is_face b"
  then have "49 \<le> unat b \<and> unat b \<le> 54"
    by (simp add: is_face_def word_le_nat_alt)
  then have "unat b = 49 \<or> unat b = 50 \<or> unat b = 51 \<or> unat b = 52 \<or> unat b = 53 \<or> unat b = 54"
    by linarith
  then show "b = 0x31 \<or> b = 0x32 \<or> b = 0x33 \<or> b = 0x34 \<or> b = 0x35 \<or> b = 0x36"
    by (simp add: word_unat_eq_iff)
next
  assume "b = 0x31 \<or> b = 0x32 \<or> b = 0x33 \<or> b = 0x34 \<or> b = 0x35 \<or> b = 0x36"
  then show "is_face b"
    by (elim disjE) (simp_all add: is_face_def)
qed

lemma face_of_range: "is_face b \<Longrightarrow> face_of b \<in> {1, 2, 3, 4, 5, 6}"
  unfolding is_face_cases by (elim disjE) (simp_all add: face_of_def)

lemma next_face_spec:
  "next_face bs = Some (d, k) \<Longrightarrow>
     0 < k \<and> k \<le> length bs \<and> is_face (bs ! (k - 1)) \<and> d = face_of (bs ! (k - 1)) \<and>
     (\<forall>j < k - 1. \<not> is_face (bs ! j))"
proof (induction bs arbitrary: k)
  case Nil
  then show ?case by simp
next
  case (Cons b bs)
  show ?case
  proof (cases "is_face b")
    case True
    with Cons.prems show ?thesis by simp
  next
    case False
    with Cons.prems obtain k' where k': "next_face bs = Some (d, k')" "k = Suc k'"
      by auto
    from Cons.IH [OF k'(1)] have IH: "0 < k'" "k' \<le> length bs" "is_face (bs ! (k' - 1))"
      "d = face_of (bs ! (k' - 1))" "\<forall>j < k' - 1. \<not> is_face (bs ! j)" by simp_all
    have "\<not> is_face ((b # bs) ! j)" if "j < k - 1" for j
      using that False IH(1,5) k'(2) by (cases j) simp_all
    with IH k'(2) show ?thesis
      by (simp add: nth_Cons')
  qed
qed

lemma next_face_None: "next_face bs = None \<longleftrightarrow> (\<forall>b \<in> set bs. \<not> is_face b)"
  by (induction bs) auto

lemma read_1936_step:
  assumes "fDice ctx = Some (file_1936 p)"
  shows "p = 0 \<Longrightarrow> \<exists>c. ReadDiceFile ctx = Some (1, c) \<and> fDice c = Some (file_1936 1)"
    and "p = 1 \<Longrightarrow> \<exists>c. ReadDiceFile ctx = Some (3, c) \<and> fDice c = Some (file_1936 3)"
    and "p = 3 \<Longrightarrow> \<exists>c. ReadDiceFile ctx = Some (6, c) \<and> fDice c = Some (file_1936 4)"
    and "p = 4 \<Longrightarrow> \<exists>c. ReadDiceFile ctx = Some (1, c) \<and> fDice c = Some (file_1936 1)"
proof -
  show "p = 0 \<Longrightarrow> \<exists>c. ReadDiceFile ctx = Some (1, c) \<and> fDice c = Some (file_1936 1)"
    using ReadDiceFile_ahead [OF assms, of 1 1]
    by (simp add: file_1936_def is_face_def face_of_def)
  show "p = 1 \<Longrightarrow> \<exists>c. ReadDiceFile ctx = Some (3, c) \<and> fDice c = Some (file_1936 3)"
    using ReadDiceFile_ahead [OF assms, of 3 2]
    by (simp add: file_1936_def is_face_def face_of_def)
  show "p = 3 \<Longrightarrow> \<exists>c. ReadDiceFile ctx = Some (6, c) \<and> fDice c = Some (file_1936 4)"
    using ReadDiceFile_ahead [OF assms, of 6 1]
    by (simp add: file_1936_def is_face_def face_of_def)
  show "p = 4 \<Longrightarrow> \<exists>c. ReadDiceFile ctx = Some (1, c) \<and> fDice c = Some (file_1936 1)"
    using ReadDiceFile_rewound [OF assms, of 1 1]
    by (simp add: file_1936_def is_face_def face_of_def)
qed

lemma read_1936_from:
  "(p, ph) \<in> {(0, 0), (1, 1), (3, 2), (4, 0)} \<Longrightarrow> fDice ctx = Some (file_1936 p) \<Longrightarrow>
     \<exists>c. read_dice n ctx = Some (map (\<lambda>i. [1, 3, 6] ! ((ph + i) mod 3)) [0..<n], c)"
proof (induction n arbitrary: p ph ctx)
  case 0
  then show ?case by simp
next
  case (Suc n)
  let ?face = "\<lambda>ph i. [1, 3, 6 :: u32] ! ((ph + i) mod 3)"
  have shift: "map (?face ph) [0..<Suc n] = ?face ph 0 # map (?face ((ph + 1) mod 3)) [0..<n]"
    by (simp add: map_upt_Suc mod_Suc_eq del: upt_Suc) (simp add: mod_simps)
  from Suc.prems(1) consider "p = 0" "ph = 0" | "p = 1" "ph = 1" | "p = 3" "ph = 2" | "p = 4" "ph = 0"
    by auto
  then obtain c p' where step: "ReadDiceFile ctx = Some (?face ph 0, c)" "fDice c = Some (file_1936 p')"
    "(p', (ph + 1) mod 3) \<in> {(0, 0), (1, 1), (3, 2), (4, 0)}"
  proof cases
    case 1
    with read_1936_step(1) [OF Suc.prems(2)] that show ?thesis by auto
  next
    case 2
    with read_1936_step(2) [OF Suc.prems(2)] that show ?thesis by auto
  next
    case 3
    with read_1936_step(3) [OF Suc.prems(2)] that show ?thesis by auto
  next
    case 4
    with read_1936_step(4) [OF Suc.prems(2)] that show ?thesis by auto
  qed
  from Suc.IH [OF step(3,2)] obtain c' where
    "read_dice n c = Some (map (?face ((ph + 1) mod 3)) [0..<n], c')" by blast
  with step(1) have "read_dice (Suc n) ctx = Some (?face ph 0 # map (?face ((ph + 1) mod 3)) [0..<n], c')"
    by simp
  then show ?case
    unfolding shift by blast
qed

lemma next_face_first:
  "k < length bs \<Longrightarrow> is_face (bs ! k) \<Longrightarrow> \<forall>j < k. \<not> is_face (bs ! j) \<Longrightarrow>
     next_face bs = Some (face_of (bs ! k), Suc k)"
proof (induction bs arbitrary: k)
  case Nil
  then show ?case by simp
next
  case (Cons b bs)
  show ?case
  proof (cases k)
    case 0
    with Cons.prems show ?thesis by simp
  next
    case (Suc k')
    from Cons.prems(3) Suc have nb: "\<not> is_face b" by auto
    have "\<forall>j < k'. \<not> is_face (bs ! j)"
      using Cons.prems(3) Suc by auto
    moreover have "k' < length bs" "is_face (bs ! k')"
      using Cons.prems(1,2) Suc by simp_all
    ultimately have "next_face bs = Some (face_of (bs ! k'), Suc k')"
      by (intro Cons.IH)
    with nb Suc show ?thesis by simp
  qed
qed

lemma next_face_drop:
  assumes "p \<le> k" "k < length bs" "is_face (bs ! k)"
    and "\<forall>j. p \<le> j \<and> j < k \<longrightarrow> \<not> is_face (bs ! j)"
  shows "next_face (drop p bs) = Some (face_of (bs ! k), Suc (k - p))"
proof -
  have "next_face (drop p bs) = Some (face_of (drop p bs ! (k - p)), Suc (k - p))"
  proof (rule next_face_first)
    show "k - p < length (drop p bs)" using assms(1,2) by simp
    show "is_face (drop p bs ! (k - p))" using assms(1-3) by simp
    show "\<forall>j < k - p. \<not> is_face (drop p bs ! j)"
    proof (intro allI impI)
      fix j assume "j < k - p"
      then have "p \<le> p + j \<and> p + j < k" by simp
      with assms(4) have "\<not> is_face (bs ! (p + j))" by blast
      then show "\<not> is_face (drop p bs ! j)" using assms(1,2) by simp
    qed
  qed
  then show ?thesis using assms(1,2) by simp
qed

lemma next_face_drop_None:
  assumes "\<forall>j. p \<le> j \<and> j < length bs \<longrightarrow> \<not> is_face (bs ! j)"
  shows "next_face (drop p bs) = None"
proof -
  have "\<not> is_face b" if "b \<in> set (drop p bs)" for b
  proof -
    from that obtain i where "i < length (drop p bs)" "b = drop p bs ! i"
      by (auto simp: in_set_conv_nth)
    then have "p + i < length bs" "b = bs ! (p + i)" by simp_all
    with assms show ?thesis by simp
  qed
  then show ?thesis by (simp add: next_face_None)
qed

lemma ReadDiceFile_skips:
  assumes "fDice ctx = Some f" "\<not> f_err f" "\<not> f_eof f"
    and "f_pos f \<le> k" "k < length (f_bytes f)" "is_face (f_bytes f ! k)"
    and "\<forall>j. f_pos f \<le> j \<and> j < k \<longrightarrow> \<not> is_face (f_bytes f ! j)"
  shows "ReadDiceFile ctx = Some (face_of (f_bytes f ! k), ctx\<lparr>fDice := Some (f\<lparr>f_pos := k + 1\<rparr>)\<rparr>)"
proof -
  have "next_face (drop (f_pos f) (f_bytes f)) = Some (face_of (f_bytes f ! k), Suc (k - f_pos f))"
    using assms(4-7) by (rule next_face_drop)
  moreover have "f_pos f \<le> length (f_bytes f)" using assms(4,5) by simp
  ultimately have "ReadDiceFile ctx
      = Some (face_of (f_bytes f ! k), ctx\<lparr>fDice := Some (f\<lparr>f_pos := f_pos f + Suc (k - f_pos f)\<rparr>)\<rparr>)"
    using assms(1-3) by (intro ReadDiceFile_ahead)
  then show ?thesis using assms(4) by simp
qed

lemma ReadDiceFile_rewinds:
  assumes "fDice ctx = Some f" "\<not> f_err f" "\<not> f_eof f" "f_pos f \<le> length (f_bytes f)"
    and "\<forall>j. f_pos f \<le> j \<and> j < length (f_bytes f) \<longrightarrow> \<not> is_face (f_bytes f ! j)"
    and "k < length (f_bytes f)" "is_face (f_bytes f ! k)" "\<forall>j < k. \<not> is_face (f_bytes f ! j)"
  shows "ReadDiceFile ctx =
     Some (face_of (f_bytes f ! k),
           ctx\<lparr>out := out ctx @ [RewindingDiceFile (szDiceFilename ctx)],
               fDice := Some (f\<lparr>f_pos := k + 1\<rparr>)\<rparr>)"
proof -
  have "next_face (drop (f_pos f) (f_bytes f)) = None"
    using assms(5) by (rule next_face_drop_None)
  moreover have "next_face (f_bytes f) = Some (face_of (f_bytes f ! k), Suc k)"
    using assms(6-8) by (rule next_face_first)
  ultimately have "ReadDiceFile ctx =
     Some (face_of (f_bytes f ! k),
           ctx\<lparr>out := out ctx @ [RewindingDiceFile (szDiceFilename ctx)],
               fDice := Some (f\<lparr>f_pos := Suc k\<rparr>)\<rparr>)"
    using assms(1-4) by (intro ReadDiceFile_rewound)
  then show ?thesis by simp
qed

lemma face_of_unat: "is_face b \<Longrightarrow> unat (face_of b) = unat b - 48 \<and> unat (face_of b) \<in> {1..6}"
  unfolding is_face_cases by (elim disjE) (simp_all add: face_of_def)

lemma RollDice_FILE:
  assumes "ReadDiceFile ctx = Some (d0, c1)" "ReadDiceFile c1 = Some (d1, c2)"
    and "unat d0 \<in> {1..6}" "unat d1 \<in> {1..6}"
  shows "RollDice ext RNG_FILE ctx = Some (0, (d0, d1), RNG_FILE, c2\<lparr>counter_c := counter_c c2 + 2\<rparr>)"
proof (rule RollDice_Break_ok)
  show "RollDice_switch ext RNG_FILE ctx = Some (Break ((d0, d1), c2\<lparr>counter_c := counter_c c2 + 2\<rparr>))"
    using assms(1,2) by (simp add: RollDice_switch_def)
  show "\<not> out_of_range (d0, d1)"
    using assms(3,4) by (simp add: out_of_range_def word_less_nat_alt)
qed

text \<open>
  Claim C7. With the file generator each die is read from the open file one byte at a
  time: the bytes that are not one of the characters '1' to '6' are skipped and the first
  byte \<open>c\<close> that is one gives the face \<open>c - '0'\<close>, the file left just behind it; when the
  rest of the file holds no such byte the file is rewound, the rewinding is printed,
  and reading goes on from the start. A read error gives \<open>(unsigned) (-1) = 4294967295\<close> with the file name
  printed, and so does a context with no open file. \<^verbatim>\<open>RollDice\<close> reads two dice that way. For
  the file of the four bytes "1936" the dice read one after the other are 1, 3, 6, 1, 3, 6
  and so on, for every number of dice.
\<close>

theorem ReadDiceFile_replay:
  "(fDice ctx = None \<longrightarrow> ReadDiceFile ctx = Some (- 1, ctx))
   \<and> (\<forall>f. fDice ctx = Some f \<and> f_err f \<and> \<not> f_eof f \<longrightarrow>
         ReadDiceFile ctx = Some (- 1, g_print (DiceFileError (szDiceFilename ctx)) ctx))
   \<and> (\<forall>f k. fDice ctx = Some f \<and> \<not> f_err f \<and> \<not> f_eof f \<and>
         f_pos f \<le> k \<and> k < length (f_bytes f) \<and> is_face (f_bytes f ! k) \<and>
         (\<forall>j. f_pos f \<le> j \<and> j < k \<longrightarrow> \<not> is_face (f_bytes f ! j)) \<longrightarrow>
         ReadDiceFile ctx
           = Some (face_of (f_bytes f ! k), ctx\<lparr>fDice := Some (f\<lparr>f_pos := k + 1\<rparr>)\<rparr>))
   \<and> (\<forall>f k. fDice ctx = Some f \<and> \<not> f_err f \<and> \<not> f_eof f \<and> f_pos f \<le> length (f_bytes f) \<and>
         (\<forall>j. f_pos f \<le> j \<and> j < length (f_bytes f) \<longrightarrow> \<not> is_face (f_bytes f ! j)) \<and>
         k < length (f_bytes f) \<and> is_face (f_bytes f ! k) \<and>
         (\<forall>j < k. \<not> is_face (f_bytes f ! j)) \<longrightarrow>
         ReadDiceFile ctx
           = Some (face_of (f_bytes f ! k),
                   ctx\<lparr>out := out ctx @ [RewindingDiceFile (szDiceFilename ctx)],
                       fDice := Some (f\<lparr>f_pos := k + 1\<rparr>)\<rparr>))
   \<and> (\<forall>b. is_face b \<longrightarrow> unat (face_of b) = unat b - 48 \<and> unat (face_of b) \<in> {1..6})
   \<and> (\<forall>d0 d1 c1 c2. ReadDiceFile ctx = Some (d0, c1) \<and> ReadDiceFile c1 = Some (d1, c2) \<and>
         unat d0 \<in> {1..6} \<and> unat d1 \<in> {1..6} \<longrightarrow>
         RollDice ext RNG_FILE ctx
           = Some (0, (d0, d1), RNG_FILE, c2\<lparr>counter_c := counter_c c2 + 2\<rparr>))
   \<and> (fDice ctx = Some (file_1936 0) \<longrightarrow>
        (\<forall>n. \<exists>c. read_dice n ctx = Some (map (\<lambda>i. [1, 3, 6] ! (i mod 3)) [0..<n], c)))
   \<and> (- 1 :: u32) = 4294967295"
proof (intro conjI allI impI; (elim conjE)?)
  show "(- 1 :: u32) = 4294967295" by simp
next
  fix n assume "fDice ctx = Some (file_1936 0)"
  with read_1936_from [of 0 0 ctx n]
  show "\<exists>c. read_dice n ctx = Some (map (\<lambda>i. [1, 3, 6] ! (i mod 3)) [0..<n], c)"
    by simp
qed (rule ReadDiceFile_closed ReadDiceFile_error ReadDiceFile_skips ReadDiceFile_rewinds
          face_of_unat [THEN conjunct1] face_of_unat [THEN conjunct2] RollDice_FILE; assumption)+

theorem ReadDiceFile_replay_witness:
  "ReadDiceFile ctx0 = Some (4294967295, ctx0)
   \<and> ReadDiceFile (ctx0\<lparr>fDice := Some ((file_1936 2)\<lparr>f_err := True\<rparr>)\<rparr>)
       = Some (4294967295, ctx0\<lparr>fDice := Some ((file_1936 2)\<lparr>f_err := True\<rparr>),
                                out := [DiceFileError []]\<rparr>)
   \<and> ReadDiceFile (ctx0\<lparr>fDice := Some (file_1936 1)\<rparr>)
       = Some (3, ctx0\<lparr>fDice := Some (file_1936 3)\<rparr>)
   \<and> ReadDiceFile (ctx0\<lparr>fDice := Some (file_1936 4)\<rparr>)
       = Some (1, ctx0\<lparr>fDice := Some (file_1936 1), out := [RewindingDiceFile []]\<rparr>)
   \<and> unat (face_of 0x33) = 3
   \<and> RollDice scripted RNG_FILE (ctx0\<lparr>fDice := Some (file_1936 3)\<rparr>)
       = Some (0, (6, 1), RNG_FILE,
               ctx0\<lparr>fDice := Some (file_1936 1), out := [RewindingDiceFile []], counter_c := 2\<rparr>)
   \<and> (\<exists>c. read_dice 7 (ctx0\<lparr>fDice := Some (file_1936 0)\<rparr>) = Some ([1, 3, 6, 1, 3, 6, 1], c))"
proof -
  note inst = ReadDiceFile_replay [where ext = scripted]
  have a: "ReadDiceFile ctx0 = Some (4294967295, ctx0)"
    using inst [of ctx0] by (simp add: ctx0_def)
  have b: "ReadDiceFile (ctx0\<lparr>fDice := Some ((file_1936 2)\<lparr>f_err := True\<rparr>)\<rparr>)
       = Some (4294967295, ctx0\<lparr>fDice := Some ((file_1936 2)\<lparr>f_err := True\<rparr>),
                                out := [DiceFileError []]\<rparr>)"
    using inst [of "ctx0\<lparr>fDice := Some ((file_1936 2)\<lparr>f_err := True\<rparr>)\<rparr>",
        THEN conjunct2, THEN conjunct1, rule_format, of "(file_1936 2)\<lparr>f_err := True\<rparr>"]
    by (simp add: ctx0_def file_1936_def g_print_def)
  have c: "ReadDiceFile (ctx0\<lparr>fDice := Some (file_1936 1)\<rparr>)
       = Some (3, ctx0\<lparr>fDice := Some (file_1936 3)\<rparr>)"
    using inst [of "ctx0\<lparr>fDice := Some (file_1936 1)\<rparr>",
        THEN conjunct2, THEN conjunct2, THEN conjunct1, rule_format, of "file_1936 1" 2]
    by (simp add: file_1936_def is_face_def face_of_def less_Suc_eq le_Suc_eq)
  have d3: "ReadDiceFile (ctx0\<lparr>fDice := Some (file_1936 3)\<rparr>)
       = Some (6, ctx0\<lparr>fDice := Some (file_1936 4)\<rparr>)"
    using inst [of "ctx0\<lparr>fDice := Some (file_1936 3)\<rparr>",
        THEN conjunct2, THEN conjunct2, THEN conjunct1, rule_format, of "file_1936 3" 3]
    by (simp add: file_1936_def is_face_def face_of_def less_Suc_eq le_Suc_eq)
  have d: "ReadDiceFile (ctx0\<lparr>fDice := Some (file_1936 4)\<rparr>)
       = Some (1, ctx0\<lparr>fDice := Some (file_1936 1), out := [RewindingDiceFile []]\<rparr>)"
    using inst [of "ctx0\<lparr>fDice := Some (file_1936 4)\<rparr>",
        THEN conjunct2, THEN conjunct2, THEN conjunct2, THEN conjunct1, rule_format,
        of "file_1936 4" 0]
    by (simp add: file_1936_def is_face_def face_of_def ctx0_def)
  have e: "unat (face_of 0x33) = 3"
    using inst [of ctx0, THEN conjunct2, THEN conjunct2, THEN conjunct2, THEN conjunct2,
        THEN conjunct1, rule_format, of "0x33"]
    by (simp add: is_face_def)
  have f: "RollDice scripted RNG_FILE (ctx0\<lparr>fDice := Some (file_1936 3)\<rparr>)
       = Some (0, (6, 1), RNG_FILE,
               ctx0\<lparr>fDice := Some (file_1936 1), out := [RewindingDiceFile []], counter_c := 2\<rparr>)"
    using inst [of "ctx0\<lparr>fDice := Some (file_1936 3)\<rparr>", THEN conjunct2, THEN conjunct2,
        THEN conjunct2, THEN conjunct2, THEN conjunct2, THEN conjunct1, rule_format,
        of 6 "ctx0\<lparr>fDice := Some (file_1936 4)\<rparr>" 1
           "ctx0\<lparr>fDice := Some (file_1936 1), out := [RewindingDiceFile []]\<rparr>"]
      d3 d
    by (simp add: ctx0_def)
  have g: "\<exists>c. read_dice 7 (ctx0\<lparr>fDice := Some (file_1936 0)\<rparr>) = Some ([1, 3, 6, 1, 3, 6, 1], c)"
    using inst [of "ctx0\<lparr>fDice := Some (file_1936 0)\<rparr>", THEN conjunct2, THEN conjunct2,
        THEN conjunct2, THEN conjunct2, THEN conjunct2, THEN conjunct2, THEN conjunct1,
        rule_format, of 7]
    by (simp add: upt_rec [of _ "numeral _"] upt_rec [of _ "Suc _"] del: read_dice.simps)
  from a b c d e f g show ?thesis by blast
qed

subsection \<open>The MD5 generator\<close>

lemma md5_rejected_code:
  "(ucast (fst h) :: ulong) \<ge> exp232_l \<or> (ucast (snd h) :: ulong) \<ge> exp232_l \<longleftrightarrow> md5_rejected h"
  by (simp add: md5_rejected_def word_le_nat_alt unat_ucast_u32 exp232_consts)

lemma md5_die_code:
  "(ucast ((ucast (r::u32) :: ulong) div exp232_q + 1) :: u32) = of_nat (die_of_raw r)"
proof -
  let ?w = "(ucast r :: ulong) div exp232_q"
  have w: "unat ?w = unat r div 715827882"
    by (simp add: unat_div unat_ucast_u32 exp232_q_def)
  have "unat (?w + 1) = unat ?w + 1"
    using raw_div_le [of r] w by (simp add: unat_word_ariths)
  then have u: "unat (?w + 1) = die_of_raw r"
    by (simp add: die_of_raw_def w sample_consts)
  have "(ucast (?w + 1) :: u32) = of_nat (unat (?w + 1))"
    by simp
  then show ?thesis
    unfolding u .
qed

lemma md5_dice_in_range:
  assumes "\<not> md5_rejected h"
  shows "\<not> out_of_range (md5_dice h)"
  using assms die_in_range [of "fst h"] die_in_range [of "snd h"]
  by (simp add: md5_rejected_def md5_dice_def out_of_range_def sample_consts)

lemma md5_while_accepted: "\<not> md5_rejected h \<Longrightarrow> md5_while md5 h n = Some (h, n)"
  by (subst md5_while.simps) (simp add: md5_rejected_code)

lemma md5_while_retry: "md5_rejected h \<Longrightarrow> md5_while md5 h n = md5_while md5 (md5 n) (n + 1)"
  by (subst md5_while.simps) (simp add: md5_rejected_code)

lemma md5_while_from:
  "md5_rejected h \<Longrightarrow> \<forall>j < k. md5_rejected (md5 (n + of_nat j)) \<Longrightarrow>
   \<not> md5_rejected (md5 (n + of_nat k)) \<Longrightarrow>
     md5_while md5 h n = Some (md5 (n + of_nat k), n + of_nat k + 1)"
proof (induction k arbitrary: h n)
  case 0
  then show ?case
    by (simp add: md5_while_retry md5_while_accepted)
next
  case (Suc k)
  have r: "md5_rejected (md5 n)"
    using Suc.prems(2) [rule_format, of 0] by simp
  have "\<forall>j < k. md5_rejected (md5 (n + 1 + of_nat j))"
  proof (intro allI impI)
    fix j assume "j < k"
    with Suc.prems(2) [rule_format, of "Suc j"] show "md5_rejected (md5 (n + 1 + of_nat j))"
      by (simp add: add.assoc)
  qed
  moreover have "\<not> md5_rejected (md5 (n + 1 + of_nat k))"
    using Suc.prems(3) by (simp add: add.assoc)
  ultimately have "md5_while md5 (md5 n) (n + 1) = Some (md5 (n + 1 + of_nat k), n + 1 + of_nat k + 1)"
    using r by (intro Suc.IH)
  with Suc.prems(1) show ?case
    by (simp add: md5_while_retry add.assoc)
qed

lemma RollDice_MD5_Some:
  assumes "md5_while (md5_buffer ext) (md5_buffer ext (nMD5 ctx)) (nMD5 ctx) = Some (h, n)"
    and "\<not> md5_rejected h"
  shows "RollDice ext RNG_MD5 ctx
     = Some (0, md5_dice h, RNG_MD5, ctx\<lparr>nMD5 := n + 1, counter_c := counter_c ctx + 2\<rparr>)"
proof (rule RollDice_Break_ok)
  show "RollDice_switch ext RNG_MD5 ctx
     = Some (Break (md5_dice h, ctx\<lparr>nMD5 := n + 1, counter_c := counter_c ctx + 2\<rparr>))"
    using assms(1) by (simp add: RollDice_switch_def md5_die_code md5_dice_def)
  show "\<not> out_of_range (md5_dice h)"
    using assms(2) by (rule md5_dice_in_range)
qed

lemma RollDice_MD5_first:
  assumes "\<not> md5_rejected (md5_buffer ext (nMD5 ctx))"
  shows "RollDice ext RNG_MD5 ctx
     = Some (0, md5_dice (md5_buffer ext (nMD5 ctx)), RNG_MD5,
             ctx\<lparr>nMD5 := nMD5 ctx + 1, counter_c := counter_c ctx + 2\<rparr>)"
  using md5_while_accepted [OF assms] assms by (rule RollDice_MD5_Some)

lemma RollDice_MD5_retried:
  assumes "\<forall>j < k. md5_rejected (md5_buffer ext (nMD5 ctx + of_nat j))" "0 < k"
    and "\<not> md5_rejected (md5_buffer ext (nMD5 ctx + of_nat k))"
  shows "RollDice ext RNG_MD5 ctx
     = Some (0, md5_dice (md5_buffer ext (nMD5 ctx + of_nat k)), RNG_MD5,
             ctx\<lparr>nMD5 := nMD5 ctx + of_nat k + 2, counter_c := counter_c ctx + 2\<rparr>)"
proof -
  have "md5_rejected (md5_buffer ext (nMD5 ctx))"
    using assms(1) [rule_format, of 0] assms(2) by simp
  then have "md5_while (md5_buffer ext) (md5_buffer ext (nMD5 ctx)) (nMD5 ctx)
      = Some (md5_buffer ext (nMD5 ctx + of_nat k), nMD5 ctx + of_nat k + 1)"
    using assms(1,3) by (rule md5_while_from)
  from RollDice_MD5_Some [OF this assms(3)] show ?thesis
    by (simp add: add.assoc)
qed

text \<open>
  Claim C9 (what the code does instead). The MD5 case computes the digest of the seed
  \<open>nMD5\<close> and takes its two halves; an accepted digest gives the dice and the seed grows
  by one. In the loop that follows a rejected digest the digest is computed first and the
  seed is incremented after it: the first retry computes the digest of the seed that was
  just rejected once more, and only the next one that of the seed plus one. So when the
  digest of seed \<open>s\<close> is rejected and \<open>s + k\<close> is the first seed above it with an accepted
  digest, the dice come from the digest of \<open>s + k\<close> and the seed is left at \<open>s + k + 2\<close>,
  with \<open>s + k + 1\<close> never used, where incrementing before recomputing would leave
  \<open>s + k + 1\<close>.
\<close>

theorem RollDice_MD5_retry:
  "(\<not> md5_rejected (md5_buffer ext (nMD5 ctx)) \<longrightarrow>
      RollDice ext RNG_MD5 ctx
        = Some (0, md5_dice (md5_buffer ext (nMD5 ctx)), RNG_MD5,
                ctx\<lparr>nMD5 := nMD5 ctx + 1, counter_c := counter_c ctx + 2\<rparr>))
   \<and> (0 < k \<and> (\<forall>j < k. md5_rejected (md5_buffer ext (nMD5 ctx + of_nat j))) \<and>
        \<not> md5_rejected (md5_buffer ext (nMD5 ctx + of_nat k)) \<longrightarrow>
      RollDice ext RNG_MD5 ctx
        = Some (0, md5_dice (md5_buffer ext (nMD5 ctx + of_nat k)), RNG_MD5,
                ctx\<lparr>nMD5 := nMD5 ctx + of_nat k + 2, counter_c := counter_c ctx + 2\<rparr>))
   \<and> (md5_rejected (md5 n) \<longrightarrow>
        md5_while md5 (md5 n) n = md5_while md5 (md5 n) (n + 1))
   \<and> (md5_rejected h \<longleftrightarrow> unat (fst h) \<ge> 4294967292 \<or> unat (snd h) \<ge> 4294967292)"
proof (intro conjI impI; (elim conjE)?)
  show "md5_rejected h \<longleftrightarrow> unat (fst h) \<ge> 4294967292 \<or> unat (snd h) \<ge> 4294967292"
    by (simp add: md5_rejected_def sample_consts)
qed (rule RollDice_MD5_first RollDice_MD5_retried md5_while_retry; assumption)+

text \<open>
  An instance with digests of MD5 itself: of the seeds 382864299 and 382864300, hashed
  as four bytes with the least significant first, the halves \<^verbatim>\<open>h.an[0]\<close>,
  \<^verbatim>\<open>h.an[1]\<close> are 713977480, 4294967293 and 192911885, 2086101435. The first digest
  is rejected, the second gives the dice 1 and 3, and the seed is left at 382864302.
\<close>

theorem RollDice_MD5_retry_witness:
  "RollDice
     (scripted\<lparr>md5_buffer := \<lambda>n. if n = 382864299 then (713977480, 4294967293)
                                  else (192911885, 2086101435)\<rparr>)
     RNG_MD5 (ctx0\<lparr>nMD5 := 382864299\<rparr>)
   = Some (0, (1, 3), RNG_MD5, ctx0\<lparr>nMD5 := 382864302, counter_c := 2\<rparr>)
   \<and> RollDice scripted RNG_MD5 (ctx0\<lparr>nMD5 := 5\<rparr>)
       = Some (0, (1, 1), RNG_MD5, ctx0\<lparr>nMD5 := 6, counter_c := 2\<rparr>)
   \<and> md5_while (\<lambda>n. (n, n)) (4294967293, 4294967293) 4294967293
       = md5_while (\<lambda>n. (n, n)) (4294967293, 4294967293) 4294967294"
proof -
  let ?ext = "scripted\<lparr>md5_buffer := \<lambda>n. if n = 382864299 then (713977480, 4294967293)
                                  else (192911885, 2086101435)\<rparr>"
  have a: "RollDice ?ext RNG_MD5 (ctx0\<lparr>nMD5 := 382864299\<rparr>)
      = Some (0, (1, 3), RNG_MD5, ctx0\<lparr>nMD5 := 382864302, counter_c := 2\<rparr>)"
    using RollDice_MD5_retry [of ?ext "ctx0\<lparr>nMD5 := 382864299\<rparr>" 1, THEN conjunct2, THEN conjunct1]
    by (simp add: md5_rejected_def md5_dice_def die_of_raw_def sample_consts ctx0_def)
  have b: "RollDice scripted RNG_MD5 (ctx0\<lparr>nMD5 := 5\<rparr>)
       = Some (0, (1, 1), RNG_MD5, ctx0\<lparr>nMD5 := 6, counter_c := 2\<rparr>)"
    using RollDice_MD5_retry [of scripted "ctx0\<lparr>nMD5 := 5\<rparr>", THEN conjunct1]
    by (simp add: md5_rejected_def md5_dice_def die_of_raw_def sample_consts ctx0_def scripted_def)
  have c: "md5_while (\<lambda>n. (n, n)) (4294967293, 4294967293) 4294967293
       = md5_while (\<lambda>n. (n, n)) (4294967293, 4294967293) 4294967294"
    using RollDice_MD5_retry [of _ _ _ "\<lambda>n. (n, n)" 4294967293,
        THEN conjunct2, THEN conjunct2, THEN conjunct1]
    by (simp add: md5_rejected_def sample_consts)
  from a b c show ?thesis by blast
qed

subsection \<open>The fallback of RollDice\<close>

lemma RollDice_fallback_iff:
  assumes "RollDice_switch ext prng ctx = Some (Break (d, c))" "out_of_range d"
  shows "RollDice ext prng ctx = Some res \<longleftrightarrow>
     (let c' = reselect ext prng RNG_MERSENNE (g_print GeneratorNotWorking c) in
      \<exists>k0 k1. both_accepted (sfmt_genrand_uint32 ext) (sfmt c') k0 k1 \<and>
        res = (case sampled_pair (sfmt_genrand_uint32 ext) (sfmt c') k0 k1 of
                 (d', g') \<Rightarrow> (0, d', RNG_MERSENNE, c'\<lparr>sfmt := g', counter_c := counter_c c' + 2\<rparr>)))"
proof -
  let ?c = "reselect ext prng RNG_MERSENNE (g_print GeneratorNotWorking c)"
  let ?gen = "sfmt_genrand_uint32 ext"
  let ?res = "\<lambda>k0 k1. case sampled_pair ?gen (sfmt ?c) k0 k1 of
                 (d', g') \<Rightarrow> (0 :: int, d', RNG_MERSENNE, ?c\<lparr>sfmt := g', counter_c := counter_c ?c + 2\<rparr>)"
  have fb: "RollDice ext prng ctx =
       map_option (\<lambda>(r, d', p, c'). (0, d', p, c')) (RollDice ext RNG_MERSENNE ?c)"
    using assms by (rule RollDice_Break_fallback)
  have "RollDice ext prng ctx = Some res \<longleftrightarrow>
      (\<exists>k0 k1. both_accepted ?gen (sfmt ?c) k0 k1 \<and> res = ?res k0 k1)"
  proof
    assume a: "RollDice ext prng ctx = Some res"
    then obtain x where x: "RollDice ext RNG_MERSENNE ?c = Some x"
      using fb by (cases "RollDice ext RNG_MERSENNE ?c") simp_all
    obtain r d' p c' where x': "x = (r, d', p, c')"
      by (cases x)
    from x x' have m: "RollDice ext RNG_MERSENNE ?c = Some (r, d', p, c')"
      by simp
    with a fb have res: "res = (0, d', p, c')"
      by simp
    from m obtain k0 k1 where acc: "both_accepted ?gen (sfmt ?c) k0 k1"
      and eq: "(r, d', p, c') = ?res k0 k1"
      unfolding RollDice_MERSENNE by blast
    from eq res have "res = ?res k0 k1"
      by (auto split: prod.splits)
    with acc show "\<exists>k0 k1. both_accepted ?gen (sfmt ?c) k0 k1 \<and> res = ?res k0 k1"
      by blast
  next
    assume "\<exists>k0 k1. both_accepted ?gen (sfmt ?c) k0 k1 \<and> res = ?res k0 k1"
    then obtain k0 k1 where acc: "both_accepted ?gen (sfmt ?c) k0 k1" and res: "res = ?res k0 k1"
      by blast
    then have "RollDice ext RNG_MERSENNE ?c = Some (?res k0 k1)"
      unfolding RollDice_MERSENNE by blast
    with fb res show "RollDice ext prng ctx = Some res"
      by (auto split: prod.splits)
  qed
  then show ?thesis
    unfolding Let_def .
qed

lemma RollDice_switch_shape:
  "prng \<noteq> RNG_MANUAL \<Longrightarrow>
     RollDice_switch ext prng ctx = None \<or> (\<exists>d c. RollDice_switch ext prng ctx = Some (Break (d, c)))"
  by (cases prng)
     (auto simp: RollDice_switch_def bind_eq_Some_conv split: prod.splits option.splits Option.bind_splits)

lemma RollDice_MANUAL:
  "RollDice ext RNG_MANUAL ctx =
     (case GetManualDice ext (world ctx) of
        ((r, d), w) \<Rightarrow> Some (r, d, RNG_MANUAL, ctx\<lparr>world := w\<rparr>))"
  by (subst RollDice.simps) (simp add: RollDice_switch_def split: prod.splits)

lemma RollDice_fallback_roll:
  assumes "RollDice_switch ext prng ctx = Some (Break (d, c))" "out_of_range d"
  shows "RollDice ext prng ctx = Some res \<longleftrightarrow> fallback_roll ext prng c res"
  unfolding fallback_roll_def using assms by (rule RollDice_fallback_iff)

lemma fallback_roll_result:
  assumes "fallback_roll ext prng c (r, d, p, c')"
  shows "r = 0" "p = RNG_MERSENNE" "\<not> out_of_range d"
    "out c' = out (reselect ext prng RNG_MERSENNE (g_print GeneratorNotWorking c))"
proof -
  let ?c = "reselect ext prng RNG_MERSENNE (g_print GeneratorNotWorking c)"
  from assms obtain k0 k1 where acc: "both_accepted (sfmt_genrand_uint32 ext) (sfmt ?c) k0 k1"
    and res: "(r, d, p, c') = (case sampled_pair (sfmt_genrand_uint32 ext) (sfmt ?c) k0 k1 of
        (d', g') \<Rightarrow> (0, d', RNG_MERSENNE, ?c\<lparr>sfmt := g', counter_c := counter_c ?c + 2\<rparr>))"
    unfolding fallback_roll_def Let_def by blast
  obtain d' g' where sp: "sampled_pair (sfmt_genrand_uint32 ext) (sfmt ?c) k0 k1 = (d', g')"
    by (cases "sampled_pair (sfmt_genrand_uint32 ext) (sfmt ?c) k0 k1")
  from res sp show "r = 0" "p = RNG_MERSENNE" "out c' = out ?c"
    by simp_all
  from sampled_pair_in_range [OF acc] sp res show "\<not> out_of_range d"
    by simp
qed

lemma RollDice_FILE_fallback:
  assumes "ReadDiceFile ctx = Some (d0, c1)" "ReadDiceFile c1 = Some (d1, c2)"
    and "out_of_range (d0, d1)"
  shows "RollDice ext RNG_FILE ctx = Some res \<longleftrightarrow>
     fallback_roll ext RNG_FILE (c2\<lparr>counter_c := counter_c c2 + 2\<rparr>) res"
proof (rule RollDice_fallback_roll)
  show "RollDice_switch ext RNG_FILE ctx = Some (Break ((d0, d1), c2\<lparr>counter_c := counter_c c2 + 2\<rparr>))"
    using assms(1,2) by (simp add: RollDice_switch_def)
qed (rule assms(3))

lemma RollDice_RANDOM_DOT_ORG_fallback:
  assumes "getDiceRandomDotOrg ext (world ctx) = (d0, w1)" "\<not> 0 < d0"
  shows "RollDice ext RNG_RANDOM_DOT_ORG ctx = Some res \<longleftrightarrow>
     fallback_roll ext RNG_RANDOM_DOT_ORG (ctx\<lparr>world := w1\<rparr>) res"
proof (rule RollDice_fallback_roll)
  show "RollDice_switch ext RNG_RANDOM_DOT_ORG ctx = Some (Break ((d0, d0), ctx\<lparr>world := w1\<rparr>))"
    using assms by (simp add: RollDice_switch_def)
  from assms(2) have "d0 = 0"
    by (simp add: word_greater_zero_iff)
  then show "out_of_range (d0, d0)"
    by (simp add: out_of_range_def)
qed

lemma RollDice_BBS_fallback:
  assumes "BBSCheck ctx \<noteq> 0"
  shows "RollDice ext RNG_BBS ctx = Some res \<longleftrightarrow> fallback_roll ext RNG_BBS (seed_failure ctx) res"
proof (rule RollDice_fallback_roll)
  show "RollDice_switch ext RNG_BBS ctx = Some (Break ((0, 0), seed_failure ctx))"
    using assms by (simp add: RollDice_switch_def BBSInitialSeedFailure_eq)
  show "out_of_range (0, 0)"
    by (simp add: out_of_range_def)
qed

lemma md5_while_result:
  "md5_while md5 h n = Some y \<Longrightarrow> \<not> md5_rejected (fst y)"
proof (induction rule: md5_while.raw_induct [rotated 1, consumes 1])
  case (1 md5_while' md5 h n y)
  then show ?case
    by (auto simp: md5_rejected_code split: if_splits)
qed

lemma md5_while_Some:
  assumes "md5_while md5 h n = Some (h', n')"
  shows "\<not> md5_rejected h'"
  using md5_while_result [OF assms] by simp

lemma RollDice_MD5_iff:
  "RollDice ext RNG_MD5 ctx = Some res \<longleftrightarrow>
     (\<exists>h n. md5_while (md5_buffer ext) (md5_buffer ext (nMD5 ctx)) (nMD5 ctx) = Some (h, n) \<and>
        res = (0, md5_dice h, RNG_MD5, ctx\<lparr>nMD5 := n + 1, counter_c := counter_c ctx + 2\<rparr>))"
proof (cases "md5_while (md5_buffer ext) (md5_buffer ext (nMD5 ctx)) (nMD5 ctx)")
  case None
  then have "RollDice_switch ext RNG_MD5 ctx = None"
    by (simp add: RollDice_switch_def)
  then have "RollDice ext RNG_MD5 ctx = None" by (rule RollDice_None)
  with None show ?thesis by simp
next
  case (Some x)
  obtain h n where x: "x = (h, n)" by (cases x)
  from Some x have w: "md5_while (md5_buffer ext) (md5_buffer ext (nMD5 ctx)) (nMD5 ctx) = Some (h, n)"
    by simp
  then have "\<not> md5_rejected h" by (rule md5_while_Some)
  with w have "RollDice ext RNG_MD5 ctx
      = Some (0, md5_dice h, RNG_MD5, ctx\<lparr>nMD5 := n + 1, counter_c := counter_c ctx + 2\<rparr>)"
    by (rule RollDice_MD5_Some)
  with w show ?thesis by auto
qed

lemma RollDice_never_substitutes:
  assumes "prng = RNG_ISAAC \<or> prng = RNG_MD5 \<or> prng = RNG_MERSENNE"
    and "RollDice ext prng ctx = Some (r, d, p, c)"
  shows "p = prng \<and> \<not> out_of_range d \<and> out c = out ctx"
  using assms(1)
proof (elim disjE)
  assume k: "prng = RNG_ISAAC"
  from assms(2) [unfolded k] obtain k0 k1 where acc: "both_accepted (irand ext) (rc ctx) k0 k1"
    and res: "(r, d, p, c) = (case sampled_pair (irand ext) (rc ctx) k0 k1 of
        (d', g') \<Rightarrow> (0, d', RNG_ISAAC, ctx\<lparr>rc := g', counter_c := counter_c ctx + 2\<rparr>))"
    unfolding RollDice_ISAAC by blast
  obtain d' g' where sp: "sampled_pair (irand ext) (rc ctx) k0 k1 = (d', g')"
    by (cases "sampled_pair (irand ext) (rc ctx) k0 k1")
  from sampled_pair_in_range [OF acc] sp res k show ?thesis by simp
next
  assume k: "prng = RNG_MERSENNE"
  from assms(2) [unfolded k] obtain k0 k1 where acc: "both_accepted (sfmt_genrand_uint32 ext) (sfmt ctx) k0 k1"
    and res: "(r, d, p, c) = (case sampled_pair (sfmt_genrand_uint32 ext) (sfmt ctx) k0 k1 of
        (d', g') \<Rightarrow> (0, d', RNG_MERSENNE, ctx\<lparr>sfmt := g', counter_c := counter_c ctx + 2\<rparr>))"
    unfolding RollDice_MERSENNE by blast
  obtain d' g' where sp: "sampled_pair (sfmt_genrand_uint32 ext) (sfmt ctx) k0 k1 = (d', g')"
    by (cases "sampled_pair (sfmt_genrand_uint32 ext) (sfmt ctx) k0 k1")
  from sampled_pair_in_range [OF acc] sp res k show ?thesis by simp
next
  assume k: "prng = RNG_MD5"
  from assms(2) [unfolded k] obtain h n where
    w: "md5_while (md5_buffer ext) (md5_buffer ext (nMD5 ctx)) (nMD5 ctx) = Some (h, n)"
    and res: "(r, d, p, c) = (0, md5_dice h, RNG_MD5, ctx\<lparr>nMD5 := n + 1, counter_c := counter_c ctx + 2\<rparr>)"
    unfolding RollDice_MD5_iff by blast
  from md5_while_Some [OF w] have "\<not> out_of_range (md5_dice h)"
    by (rule md5_dice_in_range)
  with res k show ?thesis by simp
qed

lemma sfmt_example:
  "both_accepted list_gen [4294967295, 1431655765, 4294967293, 4294967291, 7] (Suc 0) (Suc 0)"
  "sampled_pair list_gen [4294967295, 1431655765, 4294967293, 4294967291, 7] (Suc 0) (Suc 0)
     = ((3, 6), [7])"
  by (simp_all add: both_accepted_def first_accepted_Suc first_accepted_0 list_gen_def
      sampled_pair_def nth_draw_def die_of_raw_def sample_consts)

lemma fallback_roll_example:
  assumes "sfmt c = [4294967295, 1431655765, 4294967293, 4294967291, 7]"
  shows "fallback_roll scripted prng c
     (0, (3, 6), RNG_MERSENNE,
      c\<lparr>sfmt := [7], counter_c := counter_c c + 2, out := out c @ [GeneratorNotWorking]\<rparr>)"
proof -
  let ?c = "reselect scripted prng RNG_MERSENNE (g_print GeneratorNotWorking c)"
  have c: "?c = c\<lparr>out := out c @ [GeneratorNotWorking]\<rparr>"
    by (simp add: scripted_def g_print_def)
  have "both_accepted (sfmt_genrand_uint32 scripted) (sfmt ?c) (Suc 0) (Suc 0) \<and>
      (0, (3, 6), RNG_MERSENNE,
        c\<lparr>sfmt := [7], counter_c := counter_c c + 2, out := out c @ [GeneratorNotWorking]\<rparr>)
      = (case sampled_pair (sfmt_genrand_uint32 scripted) (sfmt ?c) (Suc 0) (Suc 0) of
           (d', g') \<Rightarrow> (0, d', RNG_MERSENNE, ?c\<lparr>sfmt := g', counter_c := counter_c ?c + 2\<rparr>))"
    unfolding c using sfmt_example assms by (simp add: scripted_def)
  then show ?thesis
    unfolding fallback_roll_def Let_def by (intro exI)
qed

text \<open>
  Claim C3 (as the code has it). The manual case returns from inside the switch: the
  value and the pair of the dialog go to the caller as they are, with no check of the
  range. Every other kind leaves the switch by \<^verbatim>\<open>break\<close>. When the pair it leaves has
  a value outside 1..6, \<^verbatim>\<open>RollDice\<close> prints the warning once, selects the Mersenne
  Twister and rolls once more: it returns exactly when that generator delivers two
  accepted draws, and then the value returned is 0, the kind is \<open>RNG_MERSENNE\<close>, the pair
  lies within 1..6 and nothing more is printed, so there is no second substitution.
  That is the case for the file generator when its two reads give such a pair, for
  random.org when the first die is 0, and for BBS when the seed fails \<^verbatim>\<open>BBSCheck\<close>.
  When the pair is within 1..6 it is returned with the kind unchanged; ISAAC, MD5 and
  the Mersenne Twister always do so.
\<close>

theorem RollDice_fallback:
  "(RollDice_switch ext prng ctx = Some (Break (d, c)) \<and> out_of_range d \<longrightarrow>
      (RollDice ext prng ctx = Some res \<longleftrightarrow> fallback_roll ext prng c res))
   \<and> (RollDice_switch ext prng ctx = Some (Break (d, c)) \<and> \<not> out_of_range d \<longrightarrow>
        RollDice ext prng ctx = Some (0, d, prng, c))
   \<and> (prng \<noteq> RNG_MANUAL \<longrightarrow>
        RollDice_switch ext prng ctx = None \<or>
        (\<exists>d c. RollDice_switch ext prng ctx = Some (Break (d, c))))
   \<and> (fallback_roll ext prng c (r, d', p, c') \<longrightarrow>
        r = 0 \<and> p = RNG_MERSENNE \<and> \<not> out_of_range d' \<and>
        out c' = out (reselect ext prng RNG_MERSENNE (g_print GeneratorNotWorking c)))
   \<and> (ReadDiceFile ctx = Some (d0, c1) \<and> ReadDiceFile c1 = Some (d1, c2) \<and>
        out_of_range (d0, d1) \<longrightarrow>
        (RollDice ext RNG_FILE ctx = Some res \<longleftrightarrow>
           fallback_roll ext RNG_FILE (c2\<lparr>counter_c := counter_c c2 + 2\<rparr>) res))
   \<and> (getDiceRandomDotOrg ext (world ctx) = (d0, w1) \<and> \<not> 0 < d0 \<longrightarrow>
        (RollDice ext RNG_RANDOM_DOT_ORG ctx = Some res \<longleftrightarrow>
           fallback_roll ext RNG_RANDOM_DOT_ORG (ctx\<lparr>world := w1\<rparr>) res))
   \<and> (BBSCheck ctx \<noteq> 0 \<longrightarrow>
        (RollDice ext RNG_BBS ctx = Some res \<longleftrightarrow>
           fallback_roll ext RNG_BBS (seed_failure ctx) res))
   \<and> ((prng = RNG_ISAAC \<or> prng = RNG_MD5 \<or> prng = RNG_MERSENNE) \<and>
        RollDice ext prng ctx = Some (r, d, p, c) \<longrightarrow>
        p = prng \<and> \<not> out_of_range d \<and> out c = out ctx)
   \<and> RollDice ext RNG_MANUAL ctx =
        (case GetManualDice ext (world ctx) of
           ((r, d), w) \<Rightarrow> Some (r, d, RNG_MANUAL, ctx\<lparr>world := w\<rparr>))
   \<and> (out_of_range d \<longleftrightarrow> fst d < 1 \<or> snd d < 1 \<or> fst d > 6 \<or> snd d > 6)"
proof (intro conjI impI; (elim conjE)?)
  assume "RollDice_switch ext prng ctx = Some (Break (d, c))" "out_of_range d"
  then show "RollDice ext prng ctx = Some res \<longleftrightarrow> fallback_roll ext prng c res"
    by (rule RollDice_fallback_roll)
next
  assume "RollDice_switch ext prng ctx = Some (Break (d, c))" "\<not> out_of_range d"
  then show "RollDice ext prng ctx = Some (0, d, prng, c)"
    by (rule RollDice_Break_ok)
next
  assume "prng \<noteq> RNG_MANUAL"
  then show "RollDice_switch ext prng ctx = None \<or>
        (\<exists>d c. RollDice_switch ext prng ctx = Some (Break (d, c)))"
    by (rule RollDice_switch_shape)
next
  assume a: "fallback_roll ext prng c (r, d', p, c')"
  show "r = 0" "p = RNG_MERSENNE" "\<not> out_of_range d'"
    "out c' = out (reselect ext prng RNG_MERSENNE (g_print GeneratorNotWorking c))"
    by (rule fallback_roll_result [OF a])+
next
  assume "ReadDiceFile ctx = Some (d0, c1)" "ReadDiceFile c1 = Some (d1, c2)" "out_of_range (d0, d1)"
  then show "RollDice ext RNG_FILE ctx = Some res \<longleftrightarrow>
           fallback_roll ext RNG_FILE (c2\<lparr>counter_c := counter_c c2 + 2\<rparr>) res"
    by (rule RollDice_FILE_fallback)
next
  assume "getDiceRandomDotOrg ext (world ctx) = (d0, w1)" "\<not> 0 < d0"
  then show "RollDice ext RNG_RANDOM_DOT_ORG ctx = Some res \<longleftrightarrow>
           fallback_roll ext RNG_RANDOM_DOT_ORG (ctx\<lparr>world := w1\<rparr>) res"
    by (rule RollDice_RANDOM_DOT_ORG_fallback)
next
  assume "BBSCheck ctx \<noteq> 0"
  then show "RollDice ext RNG_BBS ctx = Some res \<longleftrightarrow>
           fallback_roll ext RNG_BBS (seed_failure ctx) res"
    by (rule RollDice_BBS_fallback)
next
  assume a: "prng = RNG_ISAAC \<or> prng = RNG_MD5 \<or> prng = RNG_MERSENNE"
    "RollDice ext prng ctx = Some (r, d, p, c)"
  from RollDice_never_substitutes [OF a]
  show "p = prng" "\<not> out_of_range d" "out c = out ctx"
    by simp_all
next
  show "RollDice ext RNG_MANUAL ctx =
        (case GetManualDice ext (world ctx) of
           ((r, d), w) \<Rightarrow> Some (r, d, RNG_MANUAL, ctx\<lparr>world := w\<rparr>))"
    by (rule RollDice_MANUAL)
next
  show "out_of_range d \<longleftrightarrow> fst d < 1 \<or> snd d < 1 \<or> fst d > 6 \<or> snd d > 6"
    by (rule out_of_range_def)
qed

theorem RollDice_fallback_witness:
  "RollDice scripted RNG_FILE (ctx0\<lparr>sfmt := [4294967295, 1431655765, 4294967293, 4294967291, 7]\<rparr>)
     = Some (0, (3, 6), RNG_MERSENNE,
             ctx0\<lparr>sfmt := [7], counter_c := 4, out := [GeneratorNotWorking]\<rparr>)
   \<and> RollDice scripted RNG_RANDOM_DOT_ORG
       (ctx0\<lparr>sfmt := [4294967295, 1431655765, 4294967293, 4294967291, 7]\<rparr>)
     = Some (0, (3, 6), RNG_MERSENNE,
             ctx0\<lparr>sfmt := [7], counter_c := 2, out := [GeneratorNotWorking]\<rparr>)
   \<and> RollDice scripted RNG_FILE (ctx0\<lparr>fDice := Some (file_1936 0)\<rparr>)
     = Some (0, (1, 3), RNG_FILE, ctx0\<lparr>fDice := Some (file_1936 3), counter_c := 2\<rparr>)"
proof -
  let ?g = "[4294967295, 1431655765, 4294967293, 4294967291, 7] :: u32 list"
  let ?c = "ctx0\<lparr>sfmt := ?g\<rparr>"
  have rd: "ReadDiceFile ?c = Some (- 1, ?c)"
    by (rule ReadDiceFile_closed) (simp add: ctx0_def)
  have "fallback_roll scripted RNG_FILE (?c\<lparr>counter_c := counter_c ?c + 2\<rparr>)
      (0, (3, 6), RNG_MERSENNE, ctx0\<lparr>sfmt := [7], counter_c := 4, out := [GeneratorNotWorking]\<rparr>)"
    using fallback_roll_example [of "?c\<lparr>counter_c := counter_c ?c + 2\<rparr>" RNG_FILE]
    by (simp add: ctx0_def)
  then have a: "RollDice scripted RNG_FILE ?c
      = Some (0, (3, 6), RNG_MERSENNE, ctx0\<lparr>sfmt := [7], counter_c := 4, out := [GeneratorNotWorking]\<rparr>)"
    using RollDice_fallback [of scripted RNG_FILE ?c _ _ _ _ _ _ _ "- 1" ?c "- 1" ?c,
        THEN conjunct2, THEN conjunct2, THEN conjunct2, THEN conjunct2, THEN conjunct1] rd
    by (simp add: out_of_range_def)
  have "fallback_roll scripted RNG_RANDOM_DOT_ORG (?c\<lparr>world := ()\<rparr>)
      (0, (3, 6), RNG_MERSENNE, ctx0\<lparr>sfmt := [7], counter_c := 2, out := [GeneratorNotWorking]\<rparr>)"
    using fallback_roll_example [of "?c\<lparr>world := ()\<rparr>" RNG_RANDOM_DOT_ORG]
    by (simp add: ctx0_def)
  then have b: "RollDice scripted RNG_RANDOM_DOT_ORG ?c
      = Some (0, (3, 6), RNG_MERSENNE, ctx0\<lparr>sfmt := [7], counter_c := 2, out := [GeneratorNotWorking]\<rparr>)"
    using RollDice_fallback [of scripted RNG_RANDOM_DOT_ORG ?c _ _ _ _ _ _ _ 0 _ _ _ "()",
        THEN conjunct2, THEN conjunct2, THEN conjunct2, THEN conjunct2, THEN conjunct2,
        THEN conjunct1]
    by (simp add: scripted_def)
  let ?f = "ctx0\<lparr>fDice := Some (file_1936 0)\<rparr>"
  have sw: "RollDice_switch scripted RNG_FILE ?f
      = Some (Break ((1, 3), ctx0\<lparr>fDice := Some (file_1936 3), counter_c := 2\<rparr>))"
    by code_simp
  have c: "RollDice scripted RNG_FILE ?f
     = Some (0, (1, 3), RNG_FILE, ctx0\<lparr>fDice := Some (file_1936 3), counter_c := 2\<rparr>)"
    using RollDice_fallback [of scripted RNG_FILE ?f "(1, 3)"
        "ctx0\<lparr>fDice := Some (file_1936 3), counter_c := 2\<rparr>", THEN conjunct2, THEN conjunct1] sw
    by (simp add: out_of_range_def)
  from a b c show ?thesis by blast
qed

theorem RollDice_manual_no_fallback:
  "RollDice scripted RNG_MANUAL ctx0 = Some (- 1, (0, 0), RNG_MANUAL, ctx0)"
  by (subst RollDice.simps) (simp add: RollDice_switch_def scripted_def ctx0_def)

subsection \<open>A failed seed of BBS in RollDice\<close>

lemma BBSCheck_iff: "BBSCheck ctx = - 1 \<longleftrightarrow> zSeed ctx = zZero ctx \<or> zSeed ctx = zOne ctx"
  by (simp add: BBSCheck_def)

lemma RollDice_BBS_bad_seed:
  assumes "zSeed ctx = zZero ctx \<or> zSeed ctx = zOne ctx"
  shows "RollDice ext RNG_BBS ctx = Some res \<longleftrightarrow>
     (let c' = reselect ext RNG_BBS RNG_MERSENNE
                 (ctx\<lparr>zSeed := zZero ctx,
                      out := out ctx @ [InvalidSeedOrModulus, PleaseResetSeed, GeneratorNotWorking]\<rparr>)
      in \<exists>k0 k1. both_accepted (sfmt_genrand_uint32 ext) (sfmt c') k0 k1 \<and>
           res = (case sampled_pair (sfmt_genrand_uint32 ext) (sfmt c') k0 k1 of
                    (d, g') \<Rightarrow>
                      (0, d, RNG_MERSENNE, c'\<lparr>sfmt := g', counter_c := counter_c c' + 2\<rparr>)))"
proof -
  have chk: "BBSCheck ctx \<noteq> 0"
    using assms by (simp add: BBSCheck_def)
  have "g_print GeneratorNotWorking (seed_failure ctx)
      = ctx\<lparr>zSeed := zZero ctx,
            out := out ctx @ [InvalidSeedOrModulus, PleaseResetSeed, GeneratorNotWorking]\<rparr>"
    by (simp add: g_print_def seed_failure_def)
  then show ?thesis
    using RollDice_BBS_fallback [OF chk, of ext res] by (simp add: fallback_roll_def)
qed

lemma RollDice_BBS_bad_seed_result:
  assumes "zSeed ctx = zZero ctx \<or> zSeed ctx = zOne ctx"
    and "RollDice ext RNG_BBS ctx = Some (r, d, p, c)"
  shows "r = 0 \<and> p = RNG_MERSENNE \<and> unat (fst d) \<in> {1..6} \<and> unat (snd d) \<in> {1..6}"
proof -
  let ?c = "reselect ext RNG_BBS RNG_MERSENNE (g_print GeneratorNotWorking (seed_failure ctx))"
  have chk: "BBSCheck ctx \<noteq> 0"
    using assms(1) by (simp add: BBSCheck_def)
  from assms(2) have "fallback_roll ext RNG_BBS (seed_failure ctx) (r, d, p, c)"
    unfolding RollDice_BBS_fallback [OF chk] .
  then obtain k0 k1 where acc: "both_accepted (sfmt_genrand_uint32 ext) (sfmt ?c) k0 k1"
    and res: "(r, d, p, c) = (case sampled_pair (sfmt_genrand_uint32 ext) (sfmt ?c) k0 k1 of
        (d', g') \<Rightarrow> (0, d', RNG_MERSENNE, ?c\<lparr>sfmt := g', counter_c := counter_c ?c + 2\<rparr>))"
    unfolding fallback_roll_def Let_def by blast
  obtain d' g' where sp: "sampled_pair (sfmt_genrand_uint32 ext) (sfmt ?c) k0 k1 = (d', g')"
    by (cases "sampled_pair (sfmt_genrand_uint32 ext) (sfmt ?c) k0 k1")
  from sampled_pair_faces [OF acc] sp res show ?thesis
    by simp
qed

text \<open>
  Claim C6 (as the code has it). When \<^verbatim>\<open>RollDice\<close> is called with the BBS generator and
  a seed equal to the context's zero or one, \<^verbatim>\<open>BBSCheck\<close> fails: the two messages of
  \<^verbatim>\<open>BBSInitialSeedFailure\<close> are printed, the seed is set to zero and the switch is
  left with the pair 0, 0. That pair is out of range, so the warning is printed, the
  Mersenne Twister is selected and rolls in its place: the call returns exactly when
  that generator delivers two accepted draws, and then the value returned is 0, the
  kind left in \<^verbatim>\<open>*prng\<close> is \<open>RNG_MERSENNE\<close> and the two dice, within 1..6, are those of
  the Mersenne Twister.
\<close>

theorem RollDice_BBS_seed_failure:
  "(zSeed ctx = zZero ctx \<or> zSeed ctx = zOne ctx \<longrightarrow>
      (RollDice ext RNG_BBS ctx = Some res \<longleftrightarrow>
         (let c' = reselect ext RNG_BBS RNG_MERSENNE
                     (ctx\<lparr>zSeed := zZero ctx,
                          out := out ctx @ [InvalidSeedOrModulus, PleaseResetSeed, GeneratorNotWorking]\<rparr>)
          in \<exists>k0 k1. both_accepted (sfmt_genrand_uint32 ext) (sfmt c') k0 k1 \<and>
               res = (case sampled_pair (sfmt_genrand_uint32 ext) (sfmt c') k0 k1 of
                        (d, g') \<Rightarrow>
                          (0, d, RNG_MERSENNE, c'\<lparr>sfmt := g', counter_c := counter_c c' + 2\<rparr>)))))
   \<and> ((zSeed ctx = zZero ctx \<or> zSeed ctx = zOne ctx) \<and>
        RollDice ext RNG_BBS ctx = Some (r, d, p, c) \<longrightarrow>
        r = 0 \<and> p = RNG_MERSENNE \<and> unat (fst d) \<in> {1..6} \<and> unat (snd d) \<in> {1..6})
   \<and> (BBSCheck ctx = - 1 \<longleftrightarrow> zSeed ctx = zZero ctx \<or> zSeed ctx = zOne ctx)"
proof (intro conjI impI)
  assume "zSeed ctx = zZero ctx \<or> zSeed ctx = zOne ctx"
  then show "RollDice ext RNG_BBS ctx = Some res \<longleftrightarrow>
         (let c' = reselect ext RNG_BBS RNG_MERSENNE
                     (ctx\<lparr>zSeed := zZero ctx,
                          out := out ctx @ [InvalidSeedOrModulus, PleaseResetSeed, GeneratorNotWorking]\<rparr>)
          in \<exists>k0 k1. both_accepted (sfmt_genrand_uint32 ext) (sfmt c') k0 k1 \<and>
               res = (case sampled_pair (sfmt_genrand_uint32 ext) (sfmt c') k0 k1 of
                        (d, g') \<Rightarrow>
                          (0, d, RNG_MERSENNE, c'\<lparr>sfmt := g', counter_c := counter_c c' + 2\<rparr>)))"
    by (rule RollDice_BBS_bad_seed)
next
  assume a: "(zSeed ctx = zZero ctx \<or> zSeed ctx = zOne ctx) \<and>
        RollDice ext RNG_BBS ctx = Some (r, d, p, c)"
  from RollDice_BBS_bad_seed_result [OF a [THEN conjunct1] a [THEN conjunct2]]
  show "r = 0" "p = RNG_MERSENNE" "unat (fst d) \<in> {1..6}" "unat (snd d) \<in> {1..6}"
    by simp_all
next
  show "BBSCheck ctx = - 1 \<longleftrightarrow> zSeed ctx = zZero ctx \<or> zSeed ctx = zOne ctx"
    by (rule BBSCheck_iff)
qed

theorem RollDice_BBS_seed_failure_witness:
  "RollDice scripted RNG_BBS
     (ctx0\<lparr>zModulus := 437, sfmt := [4294967295, 1431655765, 4294967293, 4294967291, 7]\<rparr>)
   = Some (0, (3, 6), RNG_MERSENNE,
           ctx0\<lparr>zModulus := 437, sfmt := [7], counter_c := 2,
                out := [InvalidSeedOrModulus, PleaseResetSeed, GeneratorNotWorking]\<rparr>)"
proof -
  let ?g = "[4294967295, 1431655765, 4294967293, 4294967291, 7] :: u32 list"
  let ?c = "ctx0\<lparr>zModulus := 437, sfmt := ?g\<rparr>"
  let ?res = "(0 :: int, (3 :: u32, 6 :: u32), RNG_MERSENNE,
           ctx0\<lparr>zModulus := 437, sfmt := [7], counter_c := 2,
                out := [InvalidSeedOrModulus, PleaseResetSeed, GeneratorNotWorking]\<rparr>)"
  let ?c' = "reselect scripted RNG_BBS RNG_MERSENNE
      (?c\<lparr>zSeed := zZero ?c,
          out := out ?c @ [InvalidSeedOrModulus, PleaseResetSeed, GeneratorNotWorking]\<rparr>)"
  have seed: "zSeed ?c = zZero ?c \<or> zSeed ?c = zOne ?c"
    by (simp add: ctx0_def)
  have "both_accepted (sfmt_genrand_uint32 scripted) (sfmt ?c') (Suc 0) (Suc 0) \<and>
      ?res = (case sampled_pair (sfmt_genrand_uint32 scripted) (sfmt ?c') (Suc 0) (Suc 0) of
                (d, g') \<Rightarrow> (0, d, RNG_MERSENNE, ?c'\<lparr>sfmt := g', counter_c := counter_c ?c' + 2\<rparr>))"
    using sfmt_example by (simp add: scripted_def ctx0_def)
  then have "let c' = ?c' in
      \<exists>k0 k1. both_accepted (sfmt_genrand_uint32 scripted) (sfmt c') k0 k1 \<and>
        ?res = (case sampled_pair (sfmt_genrand_uint32 scripted) (sfmt c') k0 k1 of
                  (d, g') \<Rightarrow> (0, d, RNG_MERSENNE, c'\<lparr>sfmt := g', counter_c := counter_c c' + 2\<rparr>))"
    unfolding Let_def by (intro exI)
  then show ?thesis
    by (rule RollDice_BBS_seed_failure [THEN conjunct1, THEN mp, OF seed, THEN iffD2])
qed

theorem RollDice_BBS_seed_one_falls_back:
  "RollDice scripted RNG_BBS
     (ctx0\<lparr>zModulus := 437, zSeed := 1, zOne := 1, fZInit := True,
          sfmt := [4294967295, 1431655765, 4294967293, 4294967291, 7]\<rparr>)
   = Some (0, (3, 6), RNG_MERSENNE,
           ctx0\<lparr>zModulus := 437, zSeed := 0, zOne := 1, fZInit := True, sfmt := [7],
                counter_c := 2,
                out := [InvalidSeedOrModulus, PleaseResetSeed, GeneratorNotWorking]\<rparr>)"
proof -
  let ?c = "ctx0\<lparr>zModulus := 437, zSeed := 1, zOne := 1, fZInit := True,
          sfmt := [4294967295, 1431655765, 4294967293, 4294967291, 7]\<rparr>"
  have chk: "BBSCheck ?c \<noteq> 0"
    by (simp add: BBSCheck_def ctx0_def)
  have "fallback_roll scripted RNG_BBS (seed_failure ?c)
     (0, (3, 6), RNG_MERSENNE,
           ctx0\<lparr>zModulus := 437, zSeed := 0, zOne := 1, fZInit := True, sfmt := [7],
                counter_c := 2,
                out := [InvalidSeedOrModulus, PleaseResetSeed, GeneratorNotWorking]\<rparr>)"
    using fallback_roll_example [of "seed_failure ?c" RNG_BBS]
    by (simp add: seed_failure_def ctx0_def)
  then show ?thesis
    unfolding RollDice_BBS_fallback [OF chk] .
qed

subsection \<open>Seeded runs\<close>

lemma BBSGetTrit_loop_transfer:
  assumes bit: "\<And>s1 s2 b s1'. R s1 s2 \<Longrightarrow> g1 s1 = Some (b, s1') \<Longrightarrow>
      \<exists>s2'. g2 s2 = Some (b, s2') \<and> R s1' s2'"
    and run: "BBSGetTrit_loop g1 state s1 = Some y" and rel: "R s1 s2"
  shows "\<exists>s2'. BBSGetTrit_loop g2 state s2 = Some (fst y, s2') \<and> R (snd y) s2'"
proof -
  have "getbit = g1 \<Longrightarrow> R src s2 \<Longrightarrow>
      \<exists>s2'. BBSGetTrit_loop g2 state s2 = Some (fst y, s2') \<and> R (snd y) s2'"
    if "BBSGetTrit_loop getbit state src = Some y" for getbit state src y s2
    using that
  proof (induction getbit state src y arbitrary: s2
      rule: BBSGetTrit_loop.raw_induct [rotated 1, consumes 1])
    case (1 loop getbit state src y)
    note IH = "1.IH" [OF _ "1.prems"(1)]
    show ?case
    proof (cases "state \<le> 4")
      case False
      then have "state \<noteq> 0" "state \<noteq> 1" "state \<noteq> 2" "state \<noteq> 3" "state \<noteq> 4"
        by auto
      with "1.hyps" have "loop getbit state src = Some y"
        by simp
      then show ?thesis
        using "1.prems"(2) by (rule IH)
    next
      case True
      then have st: "state = 0 \<or> state = 1 \<or> state = 2 \<or> state = 3 \<or> state = 4"
        by (rule u32_le_4)
      with "1.hyps" obtain b src' where g: "g1 src = Some (b, src')"
        unfolding "1.prems"(1) by (cases "g1 src") auto
      from bit [OF "1.prems"(2) g] obtain s2a where g2: "g2 s2 = Some (b, s2a)"
        and r: "R src' s2a" by blast
      note step = loop_step [of g2 s2 b s2a, OF g2]
      have rec: "\<exists>s2'. BBSGetTrit_loop g2 st' s2a = Some (fst y, s2') \<and> R (snd y) s2'"
        if "loop getbit st' src' = Some y" for st'
        using that r by (rule IH)
      from st show ?thesis
      proof (elim disjE)
        assume "state = 0"
        with "1.hyps" g rec [of "b + 1"] show ?thesis
          by (simp add: step "1.prems"(1))
      next
        assume "state = 1"
        with "1.hyps" g rec [of 3] r show ?thesis
          by (auto simp: step "1.prems"(1) split: if_splits)
      next
        assume "state = 2"
        with "1.hyps" g rec [of 4] r show ?thesis
          by (auto simp: step "1.prems"(1) split: if_splits)
      next
        assume "state = 3"
        with "1.hyps" g rec [of 1] r show ?thesis
          by (auto simp: step "1.prems"(1) split: if_splits)
      next
        assume "state = 4"
        with "1.hyps" g rec [of 2] r show ?thesis
          by (auto simp: step "1.prems"(1) split: if_splits)
      qed
    qed
  qed
  from this [OF run refl rel] show ?thesis .
qed

lemma BBSGetBit_same:
  "same_bbs c1 c2 \<Longrightarrow> BBSGetBit c1 = Some (b, c1') \<Longrightarrow>
     \<exists>c2'. BBSGetBit c2 = Some (b, c2') \<and> same_bbs c1' c2'"
  by (auto simp: BBSGetBit_def same_bbs_def Let_def split: if_splits)

lemma BBSDie_same:
  fixes c1 c2 :: "('a, 'b, 'c) machine"
  assumes "same_bbs c1 c2" "BBSDie BBSGetBit c1 = Some (d, c1')"
  shows "\<exists>c2'. BBSDie BBSGetBit c2 = Some (d, c2') \<and> same_bbs c1' c2'"
proof -
  from assms(2) obtain t s1 b where l: "BBSGetTrit_loop BBSGetBit 0 c1 = Some (t, s1)"
    and g: "BBSGetBit s1 = Some (b, c1')" and d: "d = t + b * 3 + 1"
    unfolding BBSDie_Some by blast
  have "\<exists>s2. BBSGetTrit_loop BBSGetBit 0 c2 = Some (fst (t, s1), s2) \<and> same_bbs (snd (t, s1)) s2"
  proof (rule BBSGetTrit_loop_transfer [where R = same_bbs and ?g1.0 = BBSGetBit])
    show "\<exists>s2'. BBSGetBit s2 = Some (b, s2') \<and> same_bbs s1' s2'"
      if "same_bbs s1 s2" "BBSGetBit s1 = Some (b, s1')" for s1 s2 :: "('a, 'b, 'c) machine" and b s1'
      using that by (rule BBSGetBit_same)
  qed (rule l assms(1))+
  then obtain s2 where l2: "BBSGetTrit_loop BBSGetBit 0 c2 = Some (t, s2)" and r: "same_bbs s1 s2"
    by auto
  from BBSGetBit_same [OF r g] obtain c2' where "BBSGetBit s2 = Some (b, c2')" "same_bbs c1' c2'"
    by blast
  with l2 d show ?thesis
    unfolding BBSDie_Some by blast
qed

lemma RollDice_BBS_kind:
  assumes "RollDice ext RNG_BBS c = Some (r, d, p, c')"
  shows "BBSCheck c = 0 \<and> p = RNG_BBS \<or> BBSCheck c \<noteq> 0 \<and> p = RNG_MERSENNE"
proof (cases "BBSCheck c = 0")
  case True
  with assms show ?thesis
    unfolding RollDice_BBS [OF True] by auto
next
  case False
  from assms have "fallback_roll ext RNG_BBS (seed_failure c) (r, d, p, c')"
    unfolding RollDice_BBS_fallback [OF False] .
  from fallback_roll_result(2) [OF this] False show ?thesis
    by simp
qed

lemma RollDice_BBS_same:
  assumes "same_bbs c1 c2" "RollDice ext RNG_BBS c1 = Some (r, d, RNG_BBS, c1')"
  shows "\<exists>c2'. RollDice ext RNG_BBS c2 = Some (r, d, RNG_BBS, c2') \<and> same_bbs c1' c2'"
proof -
  from RollDice_BBS_kind [OF assms(2)] have chk: "BBSCheck c1 = 0"
    by auto
  with assms(1) have chk2: "BBSCheck c2 = 0"
    by (simp add: BBSCheck_def same_bbs_def)
  from assms(2) obtain d0 a d1 b where a: "BBSDie BBSGetBit c1 = Some (d0, a)"
    and b: "BBSDie BBSGetBit a = Some (d1, b)"
    and res: "(r, d, RNG_BBS, c1') = (0, (d0, d1), RNG_BBS, b\<lparr>counter_c := counter_c b + 2\<rparr>)"
    unfolding RollDice_BBS [OF chk] by blast
  from BBSDie_same [OF assms(1) a] obtain a' where a': "BBSDie BBSGetBit c2 = Some (d0, a')"
    and ra: "same_bbs a a'" by blast
  from BBSDie_same [OF ra b] obtain b' where b': "BBSDie BBSGetBit a' = Some (d1, b')"
    and rb: "same_bbs b b'" by blast
  from a' b' have "RollDice ext RNG_BBS c2
      = Some (0, (d0, d1), RNG_BBS, b'\<lparr>counter_c := counter_c b' + 2\<rparr>)"
    unfolding RollDice_BBS [OF chk2] by blast
  moreover from rb res have "same_bbs c1' (b'\<lparr>counter_c := counter_c b' + 2\<rparr>)"
    by (simp add: same_bbs_def)
  ultimately show ?thesis
    using res by auto
qed

lemma rolls_Suc_Some:
  "rolls ext (Suc k) prng ctx = Some (ds, p, c) \<longleftrightarrow>
     (\<exists>r d p1 c1 ds'. RollDice ext prng ctx = Some (r, d, p1, c1) \<and>
        rolls ext k p1 c1 = Some (ds', p, c) \<and> ds = d # ds')"
  by (auto simp: bind_eq_Some_conv)

lemma rolls_transfer:
  assumes step: "\<And>c1 c2 r d p c1'. R c1 c2 \<Longrightarrow> RollDice ext prng c1 = Some (r, d, p, c1') \<Longrightarrow>
      p = prng \<and> (\<exists>r' c2'. RollDice ext prng c2 = Some (r', d, prng, c2') \<and> R c1' c2')"
  shows "R c1 c2 \<Longrightarrow> rolls ext k prng c1 = Some (ds, p, c1') \<Longrightarrow>
     p = prng \<and> (\<exists>c2'. rolls ext k prng c2 = Some (ds, prng, c2') \<and> R c1' c2')"
proof (induction k arbitrary: c1 c2 ds)
  case 0
  then show ?case by auto
next
  case (Suc k)
  from Suc.prems(2) obtain r d p1 a ds' where a: "RollDice ext prng c1 = Some (r, d, p1, a)"
    and rest: "rolls ext k p1 a = Some (ds', p, c1')" and ds: "ds = d # ds'"
    unfolding rolls_Suc_Some by blast
  from step [OF Suc.prems(1) a] obtain r' a' where p1: "p1 = prng"
    and a': "RollDice ext prng c2 = Some (r', d, prng, a')" and r: "R a a'"
    by blast
  from Suc.IH [OF r rest [unfolded p1]] obtain c2' where "p = prng"
    "rolls ext k prng a' = Some (ds', prng, c2')" "R c1' c2'"
    by blast
  with a' ds show ?case
    unfolding rolls_Suc_Some by blast
qed

lemma rolls_kind:
  assumes "prng = RNG_ISAAC \<or> prng = RNG_MD5 \<or> prng = RNG_MERSENNE"
  shows "rolls ext k prng c = Some (ds, p, c') \<Longrightarrow> p = prng"
proof (induction k arbitrary: c ds)
  case 0
  then show ?case by simp
next
  case (Suc k)
  from Suc.prems obtain r d p1 a ds' where a: "RollDice ext prng c = Some (r, d, p1, a)"
    and rest: "rolls ext k p1 a = Some (ds', p, c')"
    unfolding rolls_Suc_Some by blast
  from RollDice_never_substitutes [OF assms a] have "p1 = prng" by simp
  with rest show ?case
    using Suc.IH by blast
qed

lemma rolls_BBS_same:
  "same_bbs c1 c2 \<Longrightarrow> rolls ext k RNG_BBS c1 = Some (ds, RNG_BBS, c1') \<Longrightarrow>
     \<exists>c2'. rolls ext k RNG_BBS c2 = Some (ds, RNG_BBS, c2') \<and> same_bbs c1' c2'"
proof (induction k arbitrary: c1 c2 ds)
  case 0
  then show ?case by auto
next
  case (Suc k)
  from Suc.prems(2) obtain r d p1 a ds' where a: "RollDice ext RNG_BBS c1 = Some (r, d, p1, a)"
    and rest: "rolls ext k p1 a = Some (ds', RNG_BBS, c1')" and ds: "ds = d # ds'"
    unfolding rolls_Suc_Some by blast
  have p1: "p1 = RNG_BBS"
  proof (rule ccontr)
    assume "p1 \<noteq> RNG_BBS"
    with RollDice_BBS_kind [OF a] have m: "p1 = RNG_MERSENNE" by auto
    from rolls_kind [OF _ rest [unfolded m]] show False by simp
  qed
  from RollDice_BBS_same [OF Suc.prems(1) a [unfolded p1]] obtain a' where
    a': "RollDice ext RNG_BBS c2 = Some (r, d, RNG_BBS, a')" and r: "same_bbs a a'"
    by blast
  from Suc.IH [OF r rest [unfolded p1]] obtain c2' where
    "rolls ext k RNG_BBS a' = Some (ds', RNG_BBS, c2')" "same_bbs c1' c2'"
    by blast
  with a' ds show ?case
    unfolding rolls_Suc_Some by blast
qed

lemma seed_failure_same: "same_bbs a b \<Longrightarrow> same_bbs (seed_failure a) (seed_failure b)"
  by (simp add: same_bbs_def seed_failure_def)

lemma BBSCheckInitialSeed_same:
  assumes r: "same_bbs a b" and run: "BBSCheckInitialSeed a = Some (v, a')"
  shows "\<exists>b'. BBSCheckInitialSeed b = Some (v, b') \<and> same_bbs a' b'"
proof (cases "zSeed a < 1")
  case True
  with r have "zSeed b < 1" by (simp add: same_bbs_def)
  with True run seed_failure_same [OF r] show ?thesis
    by (simp add: BBSCheckInitialSeed_nonpositive)
next
  case False
  then have pa: "0 < zSeed a" by simp
  with r have pb: "0 < zSeed b" by (simp add: same_bbs_def)
  have ma: "zModulus a \<noteq> 0"
    using run BBSCheckInitialSeed_abort [OF pa] by auto
  with r have mb: "zModulus b \<noteq> 0" by (simp add: same_bbs_def)
  from seed_cases [of "zModulus a" "zSeed a"] show ?thesis
  proof
    assume "\<exists>k. seed_accepted_at (zModulus a) (zSeed a) k"
    then obtain k where ka: "seed_accepted_at (zModulus a) (zSeed a) k" ..
    with r have kb: "seed_accepted_at (zModulus b) (zSeed b) k" by (simp add: same_bbs_def)
    from r have "same_bbs (a\<lparr>zSeed := zSeed a + int k\<rparr>) (b\<lparr>zSeed := zSeed b + int k\<rparr>)"
      by (simp add: same_bbs_def)
    with run show ?thesis
      by (simp add: BBSCheckInitialSeed_accepted [OF pa ma ka] BBSCheckInitialSeed_accepted [OF pb mb kb])
  next
    assume ea: "seed_exhausted (zModulus a) (zSeed a)"
    with r have eb: "seed_exhausted (zModulus b) (zSeed b)" by (simp add: same_bbs_def)
    from r have "same_bbs (a\<lparr>zSeed := zSeed a + 32\<rparr>) (b\<lparr>zSeed := zSeed b + 32\<rparr>)"
      by (simp add: same_bbs_def)
    then have "same_bbs (seed_failure (a\<lparr>zSeed := zSeed a + 32\<rparr>)) (seed_failure (b\<lparr>zSeed := zSeed b + 32\<rparr>))"
      by (rule seed_failure_same)
    with run show ?thesis
      by (simp add: BBSCheckInitialSeed_exhausted [OF pa ma ea] BBSCheckInitialSeed_exhausted [OF pb mb eb])
  qed
qed

lemma InitRNGSeed_BBS_same:
  assumes "same_bbs_parameters cA cB" "InitRNGSeed ext n RNG_BBS cA = Some cA'"
  shows "\<exists>cB'. InitRNGSeed ext n RNG_BBS cB = Some cB' \<and> same_bbs cA' cB'"
proof -
  let ?a = "cA\<lparr>seed_n := n, counter_c := 0, zSeed := uint n\<rparr>"
  let ?b = "cB\<lparr>seed_n := n, counter_c := 0, zSeed := uint n\<rparr>"
  have r: "same_bbs ?a ?b"
    using assms(1) by (simp add: same_bbs_def same_bbs_parameters_def)
  from assms obtain v where a: "BBSCheckInitialSeed ?a = Some (v, cA')"
    by (auto simp: InitRNGSeed_def same_bbs_parameters_def)
  from BBSCheckInitialSeed_same [OF r a] obtain cB' where
    "BBSCheckInitialSeed ?b = Some (v, cB')" "same_bbs cA' cB'" by blast
  with assms(1) show ?thesis
    by (simp add: InitRNGSeed_def same_bbs_parameters_def)
qed

lemma seeded_rolls_BBS_same:
  assumes "same_bbs_parameters cA cB" "seeded_rolls ext n RNG_BBS k cA = Some (ds, RNG_BBS, cA')"
  shows "\<exists>cB'. seeded_rolls ext n RNG_BBS k cB = Some (ds, RNG_BBS, cB')"
proof -
  from assms(2) obtain a where a: "InitRNGSeed ext n RNG_BBS cA = Some a"
    and ra: "rolls ext k RNG_BBS a = Some (ds, RNG_BBS, cA')"
    by (auto simp: seeded_rolls_def bind_eq_Some_conv)
  from InitRNGSeed_BBS_same [OF assms(1) a] obtain b where b: "InitRNGSeed ext n RNG_BBS cB = Some b"
    and r: "same_bbs a b" by blast
  from rolls_BBS_same [OF r ra] obtain cB' where "rolls ext k RNG_BBS b = Some (ds, RNG_BBS, cB')"
    by blast
  with b show ?thesis
    by (auto simp: seeded_rolls_def)
qed

lemma rolls_dice_eq:
  assumes step: "\<And>c1 c2 r d p c1'. R c1 c2 \<Longrightarrow> RollDice ext prng c1 = Some (r, d, p, c1') \<Longrightarrow>
      p = prng \<and> (\<exists>r' c2'. RollDice ext prng c2 = Some (r', d, prng, c2') \<and> R c1' c2')"
    and r: "R c1 c2" "R c2 c1"
  shows "map_option fst (rolls ext k prng c1) = map_option fst (rolls ext k prng c2)"
proof -
  have tr: "p = prng \<and> (\<exists>b'. rolls ext k prng b = Some (ds, prng, b') \<and> R a' b')"
    if "R a b" "rolls ext k prng a = Some (ds, p, a')" for a b ds p a'
  proof (rule rolls_transfer [where R = R and ?c1.0 = a])
    fix c1 c2 r d p c1'
    assume "R c1 c2" "RollDice ext prng c1 = Some (r, d, p, c1')"
    then show "p = prng \<and> (\<exists>r' c2'. RollDice ext prng c2 = Some (r', d, prng, c2') \<and> R c1' c2')"
      by (rule step)
  qed (rule that)+
  show ?thesis
  proof (cases "rolls ext k prng c1")
    case None
    have "rolls ext k prng c2 = None"
    proof (rule ccontr)
      assume "rolls ext k prng c2 \<noteq> None"
      then obtain ds p c2' where "rolls ext k prng c2 = Some (ds, p, c2')"
        by auto
      from tr [OF r(2) this] None show False
        by auto
    qed
    with None show ?thesis by simp
  next
    case (Some x)
    obtain ds p c1' where x: "x = (ds, p, c1')" by (cases x)
    with Some have "rolls ext k prng c1 = Some (ds, p, c1')" by simp
    from tr [OF r(1) this] Some x show ?thesis by auto
  qed
qed

lemma RollDice_ISAAC_same:
  assumes "rc c1 = rc c2" "RollDice ext RNG_ISAAC c1 = Some (r, d, p, c1')"
  shows "p = RNG_ISAAC \<and>
     (\<exists>r' c2'. RollDice ext RNG_ISAAC c2 = Some (r', d, RNG_ISAAC, c2') \<and> rc c1' = rc c2')"
proof -
  from assms(2) obtain k0 k1 where acc: "both_accepted (irand ext) (rc c1) k0 k1"
    and res: "(r, d, p, c1') = (case sampled_pair (irand ext) (rc c1) k0 k1 of
        (d', g') \<Rightarrow> (0, d', RNG_ISAAC, c1\<lparr>rc := g', counter_c := counter_c c1 + 2\<rparr>))"
    unfolding RollDice_ISAAC by blast
  obtain d' g' where sp: "sampled_pair (irand ext) (rc c1) k0 k1 = (d', g')"
    by (cases "sampled_pair (irand ext) (rc c1) k0 k1")
  have "RollDice ext RNG_ISAAC c2
      = Some (case sampled_pair (irand ext) (rc c2) k0 k1 of
          (d', g') \<Rightarrow> (0, d', RNG_ISAAC, c2\<lparr>rc := g', counter_c := counter_c c2 + 2\<rparr>))"
    unfolding RollDice_ISAAC using acc assms(1) by auto
  with sp res assms(1) show ?thesis by simp
qed

lemma RollDice_MERSENNE_same:
  assumes "sfmt c1 = sfmt c2" "RollDice ext RNG_MERSENNE c1 = Some (r, d, p, c1')"
  shows "p = RNG_MERSENNE \<and>
     (\<exists>r' c2'. RollDice ext RNG_MERSENNE c2 = Some (r', d, RNG_MERSENNE, c2') \<and> sfmt c1' = sfmt c2')"
proof -
  from assms(2) obtain k0 k1 where acc: "both_accepted (sfmt_genrand_uint32 ext) (sfmt c1) k0 k1"
    and res: "(r, d, p, c1') = (case sampled_pair (sfmt_genrand_uint32 ext) (sfmt c1) k0 k1 of
        (d', g') \<Rightarrow> (0, d', RNG_MERSENNE, c1\<lparr>sfmt := g', counter_c := counter_c c1 + 2\<rparr>))"
    unfolding RollDice_MERSENNE by blast
  obtain d' g' where sp: "sampled_pair (sfmt_genrand_uint32 ext) (sfmt c1) k0 k1 = (d', g')"
    by (cases "sampled_pair (sfmt_genrand_uint32 ext) (sfmt c1) k0 k1")
  have "RollDice ext RNG_MERSENNE c2
      = Some (case sampled_pair (sfmt_genrand_uint32 ext) (sfmt c2) k0 k1 of
          (d', g') \<Rightarrow> (0, d', RNG_MERSENNE, c2\<lparr>sfmt := g', counter_c := counter_c c2 + 2\<rparr>))"
    unfolding RollDice_MERSENNE using acc assms(1) by auto
  with sp res assms(1) show ?thesis by simp
qed

lemma RollDice_MD5_same:
  assumes "nMD5 c1 = nMD5 c2" "RollDice ext RNG_MD5 c1 = Some (r, d, p, c1')"
  shows "p = RNG_MD5 \<and>
     (\<exists>r' c2'. RollDice ext RNG_MD5 c2 = Some (r', d, RNG_MD5, c2') \<and> nMD5 c1' = nMD5 c2')"
proof -
  from assms(2) obtain h n where
    w: "md5_while (md5_buffer ext) (md5_buffer ext (nMD5 c1)) (nMD5 c1) = Some (h, n)"
    and res: "(r, d, p, c1') = (0, md5_dice h, RNG_MD5, c1\<lparr>nMD5 := n + 1, counter_c := counter_c c1 + 2\<rparr>)"
    unfolding RollDice_MD5_iff by blast
  have "RollDice ext RNG_MD5 c2
      = Some (0, md5_dice h, RNG_MD5, c2\<lparr>nMD5 := n + 1, counter_c := counter_c c2 + 2\<rparr>)"
    unfolding RollDice_MD5_iff using w assms(1) by auto
  with res show ?thesis by simp
qed

lemma seeded_dice_same:
  assumes "rngx = RNG_ISAAC \<or> rngx = RNG_MD5 \<or> rngx = RNG_MERSENNE"
  shows "seeded_dice ext n rngx k ctxA = seeded_dice ext n rngx k ctxB"
  using assms
proof (elim disjE)
  assume k: "rngx = RNG_ISAAC"
  show ?thesis
    unfolding k seeded_dice_def seeded_rolls_def
    by (simp add: InitRNGSeed_def)
       (rule rolls_dice_eq [where R = "\<lambda>c1 c2. rc c1 = rc c2"], rule RollDice_ISAAC_same, simp_all)
next
  assume k: "rngx = RNG_MD5"
  show ?thesis
    unfolding k seeded_dice_def seeded_rolls_def
    by (simp add: InitRNGSeed_def)
       (rule rolls_dice_eq [where R = "\<lambda>c1 c2. nMD5 c1 = nMD5 c2"], rule RollDice_MD5_same, simp_all)
next
  assume k: "rngx = RNG_MERSENNE"
  show ?thesis
    unfolding k seeded_dice_def seeded_rolls_def
    by (simp add: InitRNGSeed_def)
       (rule rolls_dice_eq [where R = "\<lambda>c1 c2. sfmt c1 = sfmt c2"], rule RollDice_MERSENNE_same, simp_all)
qed

lemma seeded_rolls_FILE:
  "seeded_rolls ext n RNG_FILE k ctx = rolls ext k RNG_FILE (ctx\<lparr>seed_n := n, counter_c := 0\<rparr>)"
  by (simp add: seeded_rolls_def InitRNGSeed_def)

text \<open>
  Claim C8 (as the code has it). For ISAAC, MD5 and the Mersenne Twister the pairs of a
  seeded run are a function of the seed and of the number of rolls: whatever the two
  contexts were before, \<^verbatim>\<open>InitRNGSeed\<close> with the same seed followed by the same number
  of calls of \<^verbatim>\<open>RollDice\<close> gives the same pairs in both, or returns in neither. For
  BBS the modulus counts as well: from two initialised contexts with the same modulus,
  when the first run returns with BBS still the active kind, so does the second, with
  the same pairs. For the file generator \<^verbatim>\<open>InitRNGSeed\<close> only records the seed and
  clears the counter: the file stays where it is, and the dice are those that follow in
  the file.
\<close>

theorem seeded_rolls_deterministic:
  "(rngx = RNG_ISAAC \<or> rngx = RNG_MD5 \<or> rngx = RNG_MERSENNE \<longrightarrow>
      seeded_dice ext n rngx k ctxA = seeded_dice ext n rngx k ctxB)
   \<and> (same_bbs_parameters ctxA ctxB \<and>
        seeded_rolls ext n RNG_BBS k ctxA = Some (ds, RNG_BBS, cA) \<longrightarrow>
        (\<exists>cB. seeded_rolls ext n RNG_BBS k ctxB = Some (ds, RNG_BBS, cB)))
   \<and> seeded_rolls ext n RNG_FILE k ctxA
       = rolls ext k RNG_FILE (ctxA\<lparr>seed_n := n, counter_c := 0\<rparr>)
   \<and> (same_bbs_parameters ctxA ctxB \<longleftrightarrow>
        fZInit ctxA \<and> fZInit ctxB \<and> zModulus ctxA = zModulus ctxB \<and>
        zZero ctxA = zZero ctxB \<and> zOne ctxA = zOne ctxB)"
proof (intro conjI impI)
  assume "rngx = RNG_ISAAC \<or> rngx = RNG_MD5 \<or> rngx = RNG_MERSENNE"
  then show "seeded_dice ext n rngx k ctxA = seeded_dice ext n rngx k ctxB"
    by (rule seeded_dice_same)
next
  assume a: "same_bbs_parameters ctxA ctxB \<and>
        seeded_rolls ext n RNG_BBS k ctxA = Some (ds, RNG_BBS, cA)"
  show "\<exists>cB. seeded_rolls ext n RNG_BBS k ctxB = Some (ds, RNG_BBS, cB)"
    by (rule seeded_rolls_BBS_same [OF a [THEN conjunct1] a [THEN conjunct2]])
next
  show "seeded_rolls ext n RNG_FILE k ctxA
       = rolls ext k RNG_FILE (ctxA\<lparr>seed_n := n, counter_c := 0\<rparr>)"
    by (rule seeded_rolls_FILE)
next
  show "same_bbs_parameters ctxA ctxB \<longleftrightarrow>
        fZInit ctxA \<and> fZInit ctxB \<and> zModulus ctxA = zModulus ctxB \<and>
        zZero ctxA = zZero ctxB \<and> zOne ctxA = zOne ctxB"
    by (rule same_bbs_parameters_def)
qed

theorem seeded_rolls_deterministic_witness:
  "seeded_dice scripted 1431655765 RNG_MD5 2 (ctx0\<lparr>nMD5 := 9, out := [PleaseResetSeed]\<rparr>)
     = Some [(3, 3), (3, 3)]
   \<and> (\<exists>cB. seeded_rolls scripted 7 RNG_BBS 2
              (ctx0\<lparr>fZInit := True, zModulus := 437, zOne := 1, nMD5 := 9, out := [PleaseResetSeed]\<rparr>)
            = Some ([(2, 3), (2, 5)], RNG_BBS, cB))"
proof -
  have "seeded_dice scripted 1431655765 RNG_MD5 2 ctx0 = Some [(3, 3), (3, 3)]"
    by code_simp
  then have a: "seeded_dice scripted 1431655765 RNG_MD5 2 (ctx0\<lparr>nMD5 := 9, out := [PleaseResetSeed]\<rparr>)
     = Some [(3, 3), (3, 3)]"
    using seeded_rolls_deterministic [of RNG_MD5 scripted 1431655765 2 ctx0
        "ctx0\<lparr>nMD5 := 9, out := [PleaseResetSeed]\<rparr>", THEN conjunct1]
    by simp
  let ?A = "ctx0\<lparr>fZInit := True, zModulus := 437, zOne := 1\<rparr>"
  let ?B = "ctx0\<lparr>fZInit := True, zModulus := 437, zOne := 1, nMD5 := 9, out := [PleaseResetSeed]\<rparr>"
  have p: "same_bbs_parameters ?A ?B"
    by (simp add: same_bbs_parameters_def)
  have r: "seeded_rolls scripted 7 RNG_BBS 2 ?A
      = Some ([(2, 3), (2, 5)], RNG_BBS,
              ctx0\<lparr>zModulus := 437, zSeed := 73, zOne := 1, fZInit := True, counter_c := 4, seed_n := 7\<rparr>)"
    by code_simp
  have b: "\<exists>cB. seeded_rolls scripted 7 RNG_BBS 2 ?B = Some ([(2, 3), (2, 5)], RNG_BBS, cB)"
    by (rule seeded_rolls_deterministic [THEN conjunct2, THEN conjunct1, THEN mp, OF conjI, OF p r])
  from a b show ?thesis by blast
qed

theorem seeded_rolls_depend_on_context:
  "seeded_rolls scripted 5 RNG_FILE 1 (ctx0\<lparr>fDice := Some (file_1936 0)\<rparr>)
     = Some ([(1, 3)], RNG_FILE, ctx0\<lparr>fDice := Some (file_1936 3), counter_c := 2, seed_n := 5\<rparr>)
   \<and> seeded_rolls scripted 5 RNG_FILE 1
       (ctx0\<lparr>fDice := Some (file_1936 3), counter_c := 2, seed_n := 5\<rparr>)
     = Some ([(6, 1)], RNG_FILE,
             ctx0\<lparr>fDice := Some (file_1936 1), counter_c := 2, seed_n := 5,
                  out := [RewindingDiceFile []]\<rparr>)
   \<and> seeded_dice scripted 7 RNG_BBS 1 (ctx0\<lparr>fZInit := True, zModulus := 437, zOne := 1\<rparr>)
     = Some [(2, 3)]
   \<and> seeded_dice scripted 7 RNG_BBS 1 (ctx0\<lparr>fZInit := True, zModulus := 713, zOne := 1\<rparr>)
     = Some [(5, 5)]"
  by code_simp

end
